theory Spec2Isabelle
  imports Main "HOL-Library.Char_ord" "HOL-Library.List_Lexorder" "HOL-Library.FSet"
begin

section \<open>Python string primitives used by video\_cutter.py\<close>

text \<open>
  Strings are lists of characters. The model covers ASCII input: Python compares and
  classifies code points, and on ASCII text a code point is one \<^typ>\<open>char\<close>.
  Every exception of the source is a value of \<open>error\<close>; a function that can raise
  returns \<open>error + 'a\<close> with \<open>Inl\<close> for the exception.
\<close>

datatype error =
    ValueError string
  | PermissionError string
  | IndexError
  | OSError string

text \<open>\<^verbatim>\<open>str.isspace\<close> on ASCII: TAB, LF, VT, FF, CR, FS, GS, RS, US and the blank.\<close>

definition is_space :: "char \<Rightarrow> bool" where
  "is_space c = (let k = (of_char c :: nat) in (9 \<le> k \<and> k \<le> 13) \<or> (28 \<le> k \<and> k \<le> 32))"

definition is_digit :: "char \<Rightarrow> bool" where
  "is_digit c = (let k = (of_char c :: nat) in 48 \<le> k \<and> k \<le> 57)"

definition digit_val :: "char \<Rightarrow> nat" where
  "digit_val c = of_char c - 48"

definition digit_char :: "nat \<Rightarrow> char" where
  "digit_char d = char_of (48 + d)"

text \<open>\<^verbatim>\<open>s.strip()\<close>: whitespace removed at both ends.\<close>

definition strip :: "string \<Rightarrow> string" where
  "strip s = rev (dropWhile is_space (rev (dropWhile is_space s)))"

text \<open>\<^verbatim>\<open>s.lower()\<close> on ASCII: the letters A to Z move to a to z.\<close>

definition lower_char :: "char \<Rightarrow> char" where
  "lower_char c = (let k = (of_char c :: nat) in if 65 \<le> k \<and> k \<le> 90 then char_of (k + 32) else c)"

definition lower :: "string \<Rightarrow> string" where
  "lower s = map lower_char s"

text \<open>\<^verbatim>\<open>s.split(sep)\<close> for a one-character separator: never an empty list.\<close>

fun split :: "char \<Rightarrow> string \<Rightarrow> string list" where
  "split sep [] = [[]]"
| "split sep (c # cs) =
     (if c = sep then [] # split sep cs
      else (case split sep cs of
              [] \<Rightarrow> [[c]]
            | p # ps \<Rightarrow> (c # p) # ps))"

text \<open>
  \<^verbatim>\<open>int(s)\<close> on a string, base 10, as CPython 3.11 reads an ASCII string: whitespace
  around the number is skipped, one sign is allowed, then at least one digit; a single
  underscore may stand between two digits; more than 4300 digits are refused (the default
  of \<^verbatim>\<open>sys.set_int_max_str_digits\<close>). \<open>None\<close> is Python's ValueError. The whitespace
  \<^verbatim>\<open>int\<close> skips is that of C (TAB, LF, VT, FF, CR and the blank): the separators FS, GS,
  RS and US, which \<^verbatim>\<open>str.strip\<close> removes, make \<^verbatim>\<open>int\<close> fail.
\<close>

definition is_c_space :: "char \<Rightarrow> bool" where
  "is_c_space c = (let k = (of_char c :: nat) in (9 \<le> k \<and> k \<le> 13) \<or> k = 32)"

definition int_strip :: "string \<Rightarrow> string" where
  "int_strip s = rev (dropWhile is_c_space (rev (dropWhile is_c_space s)))"

definition max_str_digits :: nat where
  "max_str_digits = 4300"

fun parse_digits :: "string \<Rightarrow> nat \<Rightarrow> nat option" where
  "parse_digits [] acc = Some acc"
| "parse_digits (c # cs) acc =
     (if is_digit c then parse_digits cs (10 * acc + digit_val c)
      else if c = CHR ''_'' then
        (case cs of
           [] \<Rightarrow> None
         | d # _ \<Rightarrow> if is_digit d then parse_digits cs acc else None)
      else None)"

definition parse_unsigned :: "string \<Rightarrow> nat option" where
  "parse_unsigned s =
     (case s of
        [] \<Rightarrow> None
      | c # _ \<Rightarrow>
          if is_digit c \<and> length (filter is_digit s) \<le> max_str_digits
          then parse_digits s 0 else None)"

definition py_int :: "string \<Rightarrow> int option" where
  "py_int s =
     (case int_strip s of
        [] \<Rightarrow> None
      | c # cs \<Rightarrow>
          if c = CHR ''-'' then map_option (\<lambda>n. - int n) (parse_unsigned cs)
          else if c = CHR ''+'' then map_option int (parse_unsigned cs)
          else map_option int (parse_unsigned (c # cs)))"

text \<open>\<^verbatim>\<open>str(n)\<close> for a non-negative integer: its decimal digits, no leading zero.\<close>

fun str_nat :: "nat \<Rightarrow> string" where
  "str_nat n = (if n < 10 then [digit_char n] else str_nat (n div 10) @ [digit_char (n mod 10)])"

declare str_nat.simps [simp del]

text \<open>\<^verbatim>\<open>f"{n}"\<close> for an integer.\<close>

definition str_int :: "int \<Rightarrow> string" where
  "str_int i = (if i < 0 then CHR ''-'' # str_nat (nat (- i)) else str_nat (nat i))"

text \<open>
  \<^verbatim>\<open>f"{n:02d}"\<close>: zero fill to a minimum width of two, the sign counted in the width.
  A wider number is printed in full.
\<close>

definition zfill :: "nat \<Rightarrow> string \<Rightarrow> string" where
  "zfill w s = replicate (w - length s) CHR ''0'' @ s"

definition fmt_02d :: "int \<Rightarrow> string" where
  "fmt_02d i = (if i < 0 then CHR ''-'' # zfill 1 (str_nat (nat (- i))) else zfill 2 (str_nat (nat i)))"

section \<open>VideoCutter.parse\_timestamp\<close>

definition invalid_timestamp :: "string \<Rightarrow> error" where
  "invalid_timestamp t = ValueError (''Invalid timestamp format: '' @ t)"

definition parse_timestamp :: "string \<Rightarrow> error + string" where
  "parse_timestamp raw =
     (let timestamp = strip raw;
          parts = split CHR '':'' timestamp
      in case parts of
           [p0] \<Rightarrow>
             (case py_int p0 of
                Some seconds \<Rightarrow> Inr (''00:00:'' @ fmt_02d seconds)
              | None \<Rightarrow> Inl (invalid_timestamp timestamp))
         | [p0, p1] \<Rightarrow>
             (case (py_int p0, py_int p1) of
                (Some minutes, Some seconds) \<Rightarrow>
                  Inr (''00:'' @ fmt_02d minutes @ '':'' @ fmt_02d seconds)
              | _ \<Rightarrow> Inl (invalid_timestamp timestamp))
         | [p0, p1, p2] \<Rightarrow>
             (case (py_int p0, py_int p1, py_int p2) of
                (Some hours, Some minutes, Some seconds) \<Rightarrow>
                  Inr (fmt_02d hours @ '':'' @ fmt_02d minutes @ '':'' @ fmt_02d seconds)
              | _ \<Rightarrow> Inl (invalid_timestamp timestamp))
         | _ \<Rightarrow> Inl (invalid_timestamp timestamp))"

section \<open>VideoCutter.\_parse\_scale\_settings\<close>

text \<open>The preset dictionary of the source, key by key.\<close>

definition presets :: "(string \<times> string list) list" where
  "presets =
     [(''720p'', [''-vf'', ''scale=1280:720'', ''-b:v'', ''2M'', ''-b:a'', ''128k'']),
      (''480p'', [''-vf'', ''scale=854:480'', ''-b:v'', ''1M'', ''-b:a'', ''96k'']),
      (''360p'', [''-vf'', ''scale=640:360'', ''-b:v'', ''500k'', ''-b:a'', ''64k'']),
      (''240p'', [''-vf'', ''scale=426:240'', ''-b:v'', ''250k'', ''-b:a'', ''64k''])]"

definition invalid_scale_setting :: "string \<Rightarrow> error" where
  "invalid_scale_setting scale =
     ValueError (''Invalid scale setting: '' @ scale @
       ''. Use presets (720p, 480p, 360p, 240p) or custom format (width:height:bitrate)'')"

definition invalid_custom_scale :: "string \<Rightarrow> error" where
  "invalid_custom_scale scale = ValueError (''Invalid custom scale format: '' @ scale)"

definition parse_scale_settings :: "string \<Rightarrow> error + string list" where
  "parse_scale_settings raw =
     (let scale = strip (lower raw) in
      case map_of presets scale of
        Some args \<Rightarrow> Inr args
      | None \<Rightarrow>
          if CHR '':'' \<in> set scale then
            (let parts = split CHR '':'' scale in
             if 2 \<le> length parts then
               (case (py_int (parts ! 0), py_int (parts ! 1)) of
                  (Some width, Some height) \<Rightarrow>
                    (let bitrate = (if 2 < length parts then parts ! 2 else ''1M'')
                     in Inr [''-vf'', ''scale='' @ str_int width @ '':'' @ str_int height,
                             ''-b:v'', bitrate, ''-b:a'', ''128k''])
                | _ \<Rightarrow> Inl (invalid_custom_scale scale))
             else Inl (invalid_scale_setting scale))
          else Inl (invalid_scale_setting scale))"

section \<open>VideoCutter.\_create\_safe\_filename\<close>

text \<open>
  The file system is the finite set of paths for which \<^verbatim>\<open>os.path.exists\<close> is true.
  \<^verbatim>\<open>os.path.splitext\<close> is the POSIX one (\<^verbatim>\<open>genericpath._splitext\<close> with \<^verbatim>\<open>/\<close> as the
  separator): the extension starts at the last dot of the last component, unless that
  component consists of leading dots only up to there.
\<close>

type_synonym filesystem = "string fset"

fun rfind :: "char \<Rightarrow> string \<Rightarrow> int" where
  "rfind c [] = - 1"
| "rfind c (x # xs) = (let r = rfind c xs in if 0 \<le> r then r + 1 else if x = c then 0 else - 1)"

definition splitext :: "string \<Rightarrow> string \<times> string" where
  "splitext p =
     (let sepIndex = rfind CHR ''/'' p;
          dotIndex = rfind CHR ''.'' p
      in if sepIndex < dotIndex \<and>
            list_ex (\<lambda>c. c \<noteq> CHR ''.'')
              (take (nat (dotIndex - (sepIndex + 1))) (drop (nat (sepIndex + 1)) p))
         then (take (nat dotIndex) p, drop (nat dotIndex) p)
         else (p, []))"

text \<open>The candidate \<^verbatim>\<open>f"{base_name}_{counter}{ext}"\<close>.\<close>

definition numbered :: "string \<Rightarrow> string \<Rightarrow> nat \<Rightarrow> string" where
  "numbered base_name ext counter = base_name @ ''_'' @ str_nat counter @ ext"

text \<open>
  The \<^verbatim>\<open>while os.path.exists(...): counter += 1\<close> loop. It ends because the candidates
  are pairwise different and only finitely many paths exist.
\<close>

function find_counter :: "filesystem \<Rightarrow> string \<Rightarrow> string \<Rightarrow> nat \<Rightarrow> nat" where
  "find_counter fs base_name ext counter =
     (if numbered base_name ext counter |\<in>| fs
      then find_counter fs base_name ext (counter + 1)
      else counter)"
  by pat_completeness auto

definition create_safe_filename :: "filesystem \<Rightarrow> string \<Rightarrow> string" where
  "create_safe_filename fs base_filename =
     (if base_filename |\<notin>| fs then base_filename
      else (case splitext base_filename of
              (base_name, ext) \<Rightarrow> numbered base_name ext (find_counter fs base_name ext 1)))"

section \<open>VideoCutter.cut\_video\<close>

subsection \<open>Planning: lines 110 to 123\<close>

text \<open>The loop that parses every timestamp; the first failure is raised.\<close>

fun parse_all :: "string list \<Rightarrow> error + string list" where
  "parse_all [] = Inr []"
| "parse_all (ts # rest) =
     (case parse_timestamp ts of
        Inl e \<Rightarrow> Inl e
      | Inr p \<Rightarrow> (case parse_all rest of Inl e \<Rightarrow> Inl e | Inr ps \<Rightarrow> Inr (p # ps)))"

text \<open>
  \<^verbatim>\<open>list.sort()\<close> on strings orders them lexicographically by code point: \<^const>\<open>sort\<close>
  on \<^typ>\<open>string\<close>, with the lexicographic order on lists and characters ordered by
  their codes.
\<close>

definition plan :: "string list \<Rightarrow> error + string list" where
  "plan timestamps =
     (if timestamps = [] then Inl (ValueError ''At least one timestamp is required'')
      else case parse_all timestamps of
             Inl e \<Rightarrow> Inl e
           | Inr parsed \<Rightarrow>
               (case sort parsed of
                  [] \<Rightarrow> Inl IndexError
                | t # ts \<Rightarrow> Inr (if t \<noteq> ''00:00:00'' then ''00:00:00'' # t # ts else t # ts)))"

text \<open>
  The segments the loop of lines 151 to 207 walks through: index, start time, and the end
  time, which is the next boundary or absent for the last one.
\<close>

definition segments :: "string list \<Rightarrow> (nat \<times> string \<times> string option) list" where
  "segments parsed_timestamps =
     map (\<lambda>i. (i + 1, parsed_timestamps ! i,
                if i + 1 < length parsed_timestamps then Some (parsed_timestamps ! (i + 1)) else None))
       [0..<length parsed_timestamps]"

subsection \<open>The outside world\<close>

text \<open>
  What \<^verbatim>\<open>cut_video\<close> does to the outside world goes through four operations. Each one
  is a parameter: given the file system it may change it, and it either completes or
  raises. Nothing is assumed about them, so a theorem about \<^verbatim>\<open>cut_video\<close> holds for
  every behaviour of the directory, the probe file and the transcoder.
\<close>

datatype proc_result =
    Completed
  | CalledProcessError string
  | OtherException string

record env =
  mkdir_p :: "string \<Rightarrow> filesystem \<Rightarrow> error option \<times> filesystem"
  open_write :: "string \<Rightarrow> filesystem \<Rightarrow> error option \<times> filesystem"
  os_remove :: "string \<Rightarrow> filesystem \<Rightarrow> error option \<times> filesystem"
  subprocess_run :: "string list \<Rightarrow> filesystem \<Rightarrow> proc_result \<times> filesystem"

text \<open>The effects performed, in order; a run is recorded with how it ended.\<close>

datatype event =
    Mkdir string
  | OpenWrite string
  | Remove string
  | Run "string list" proc_result

text \<open>\<^verbatim>\<open>if output_dir:\<close> and \<^verbatim>\<open>if scale:\<close> are false for \<^verbatim>\<open>None\<close> and for the empty string.\<close>

definition truthy :: "string option \<Rightarrow> string option" where
  "truthy v = (case v of None \<Rightarrow> None | Some s \<Rightarrow> if s = [] then None else Some s)"

text \<open>\<^verbatim>\<open>os.path.join(a, b)\<close> of \<^verbatim>\<open>posixpath\<close>.\<close>

definition path_join :: "string \<Rightarrow> string \<Rightarrow> string" where
  "path_join a b =
     (if b \<noteq> [] \<and> hd b = CHR ''/'' then b
      else if a = [] \<or> last a = CHR ''/'' then a @ b
      else a @ ''/'' @ b)"

text \<open>
  \<^verbatim>\<open>Path(p).suffix\<close> of \<^verbatim>\<open>pathlib\<close> on POSIX: the name is the last component that is
  neither empty nor a single dot; its suffix starts at its last dot, when that dot is
  neither the first nor the last character.
\<close>

definition path_name :: "string \<Rightarrow> string" where
  "path_name p =
     (case filter (\<lambda>x. x \<noteq> [] \<and> x \<noteq> ''.'') (split CHR ''/'' p) of
        [] \<Rightarrow> []
      | x # xs \<Rightarrow> last (x # xs))"

definition path_suffix :: "string \<Rightarrow> string" where
  "path_suffix p =
     (let name = path_name p; i = rfind CHR ''.'' name
      in if 0 < i \<and> i < int (length name) - 1 then drop (nat i) name else [])"

subsection \<open>Preflight: lines 128 to 143\<close>

definition no_write_permission :: "string \<Rightarrow> error" where
  "no_write_permission test_dir =
     PermissionError (''No write permission in directory '' @ [CHR 0x27] @ test_dir @ [CHR 0x27] @
       ''. Try running as administrator or choosing a different directory.'')"

text \<open>The \<^verbatim>\<open>except PermissionError\<close> clause: that exception is replaced, any other passes.\<close>

definition reraise :: "string \<Rightarrow> error \<Rightarrow> error" where
  "reraise test_dir e = (case e of PermissionError _ \<Rightarrow> no_write_permission test_dir | _ \<Rightarrow> e)"

definition probe :: "env \<Rightarrow> string \<Rightarrow> filesystem \<Rightarrow> (error + filesystem) \<times> event list" where
  "probe E test_dir fs =
     (let test_file = path_join test_dir ''temp_permission_test.tmp'' in
      case open_write E test_file fs of
        (Some e, _) \<Rightarrow> (Inl (reraise test_dir e), [OpenWrite test_file])
      | (None, fs1) \<Rightarrow>
          (case os_remove E test_file fs1 of
             (Some e, _) \<Rightarrow> (Inl (reraise test_dir e), [OpenWrite test_file, Remove test_file])
           | (None, fs2) \<Rightarrow> (Inr fs2, [OpenWrite test_file, Remove test_file])))"

definition preflight :: "env \<Rightarrow> string option \<Rightarrow> filesystem \<Rightarrow> (error + filesystem) \<times> event list" where
  "preflight E output_dir fs =
     (case truthy output_dir of
        Some d \<Rightarrow>
          (case mkdir_p E d fs of
             (Some e, _) \<Rightarrow> (Inl e, [Mkdir d])
           | (None, fs1) \<Rightarrow> (case probe E d fs1 of (r, evs) \<Rightarrow> (r, Mkdir d # evs)))
      | None \<Rightarrow> probe E ''.'' fs)"

subsection \<open>Building one command: lines 163 to 207\<close>

text \<open>
  The four command lists of the source: with or without an end time, with or without
  scale arguments.
\<close>

definition build_cmd :: "string \<Rightarrow> string \<Rightarrow> string option \<Rightarrow> string list \<Rightarrow> string \<Rightarrow> string list" where
  "build_cmd input_video start_time end_time scale_args output_filename =
     (case end_time of
        Some end_t \<Rightarrow>
          (if scale_args \<noteq> [] then
             [''ffmpeg'', ''-i'', input_video, ''-ss'', start_time, ''-to'', end_t,
              ''-avoid_negative_ts'', ''make_zero'', ''-y''] @ scale_args @ [output_filename]
           else
             [''ffmpeg'', ''-i'', input_video, ''-ss'', start_time, ''-to'', end_t,
              ''-c'', ''copy'', ''-avoid_negative_ts'', ''make_zero'', ''-y'', output_filename])
      | None \<Rightarrow>
          (if scale_args \<noteq> [] then
             [''ffmpeg'', ''-i'', input_video, ''-ss'', start_time,
              ''-avoid_negative_ts'', ''make_zero'', ''-y''] @ scale_args @ [output_filename]
           else
             [''ffmpeg'', ''-i'', input_video, ''-ss'', start_time,
              ''-c'', ''copy'', ''-avoid_negative_ts'', ''make_zero'', ''-y'', output_filename]))"

subsection \<open>Executing: lines 151 to 242\<close>

text \<open>
  The state of the loop: the file system, \<^verbatim>\<open>output_files\<close>, and the effects so far.
  One pass of the loop body names the output, builds the command and runs it; both
  \<^verbatim>\<open>except\<close> clauses end in \<^verbatim>\<open>continue\<close>, so a failed run only leaves the list of
  output files as it was.
\<close>

definition base_filename :: "string \<Rightarrow> string option \<Rightarrow> string \<Rightarrow> nat \<Rightarrow> string" where
  "base_filename output_prefix output_dir input_video index =
     (let name = output_prefix @ ''_segment_'' @ str_nat index @ ''.'' @ drop 1 (path_suffix input_video)
      in case truthy output_dir of Some d \<Rightarrow> path_join d name | None \<Rightarrow> name)"

definition segment_step ::
  "env \<Rightarrow> string \<Rightarrow> string \<Rightarrow> string option \<Rightarrow> string list \<Rightarrow>
   (nat \<times> string \<times> string option) \<Rightarrow> filesystem \<times> string list \<times> event list \<Rightarrow>
   filesystem \<times> string list \<times> event list" where
  "segment_step E input_video output_prefix output_dir scale_args seg st =
     (case (seg, st) of
        ((index, start_time, end_time), (fs, output_files, evs)) \<Rightarrow>
          (let output_filename =
                 create_safe_filename fs (base_filename output_prefix output_dir input_video index);
               cmd = build_cmd input_video start_time end_time scale_args output_filename
           in case subprocess_run E cmd fs of
                (Completed, fs') \<Rightarrow>
                  (fs', output_files @ [output_filename], evs @ [Run cmd Completed])
              | (r, fs') \<Rightarrow> (fs', output_files, evs @ [Run cmd r])))"

definition run_segments ::
  "env \<Rightarrow> string \<Rightarrow> string \<Rightarrow> string option \<Rightarrow> string list \<Rightarrow> string list \<Rightarrow>
   filesystem \<Rightarrow> string list \<times> event list" where
  "run_segments E input_video output_prefix output_dir scale_args parsed_timestamps fs =
     (case fold (segment_step E input_video output_prefix output_dir scale_args)
             (segments parsed_timestamps) (fs, [], []) of
        (_, output_files, evs) \<Rightarrow> (output_files, evs))"

text \<open>Lines 146 to 148: \<^verbatim>\<open>scale_args\<close> stays empty unless a scale selector is given.\<close>

definition scale_args_of :: "string option \<Rightarrow> error + string list" where
  "scale_args_of scale =
     (case truthy scale of
        Some sc \<Rightarrow> parse_scale_settings sc
      | None \<Rightarrow> Inr [])"

text \<open>
  \<^verbatim>\<open>cut_video\<close>: the value returned or the exception raised, and the effects performed
  up to there.
\<close>

definition cut_video ::
  "env \<Rightarrow> string \<Rightarrow> string list \<Rightarrow> string \<Rightarrow> string option \<Rightarrow> string option \<Rightarrow>
   filesystem \<Rightarrow> (error + string list) \<times> event list" where
  "cut_video E input_video timestamps output_prefix scale output_dir fs =
     (case plan timestamps of
        Inl e \<Rightarrow> (Inl e, [])
      | Inr parsed_timestamps \<Rightarrow>
          (case preflight E output_dir fs of
             (Inl e, evs) \<Rightarrow> (Inl e, evs)
           | (Inr fs1, evs) \<Rightarrow>
               (case scale_args_of scale of
                  Inl e \<Rightarrow> (Inl e, evs)
                | Inr scale_args \<Rightarrow>
                    (case run_segments E input_video output_prefix output_dir scale_args
                            parsed_timestamps fs1 of
                       (output_files, evs') \<Rightarrow> (Inr output_files, evs @ evs')))))"

section \<open>VideoCutterGUI.timestamp\_to\_seconds\<close>

text \<open>
  The conversion of the graphical front end (video\_cutter\_gui.py, lines 451 to 455): the
  first three colon-separated fields as hours, minutes and seconds. \<open>None\<close> when it
  raises: a field that \<^verbatim>\<open>int\<close> refuses, or fewer than three fields.
\<close>

definition timestamp_to_seconds :: "string \<Rightarrow> int option" where
  "timestamp_to_seconds timestamp =
     (case split CHR '':'' timestamp of
        p0 # p1 # p2 # _ \<Rightarrow>
          (case (py_int p0, py_int p1, py_int p2) of
             (Some hours, Some minutes, Some seconds) \<Rightarrow>
               Some (hours * 3600 + minutes * 60 + seconds)
           | _ \<Rightarrow> None)
      | _ \<Rightarrow> None)"

section \<open>Notions used to state the properties\<close>

text \<open>The outputs of the runs that completed: an output path is the last argument.\<close>

fun successes :: "event list \<Rightarrow> string list" where
  "successes [] = []"
| "successes (Run cmd Completed # evs) = last cmd # successes evs"
| "successes (ev # evs) = successes evs"

text \<open>
  A segment is attempted in a file system: the output is named there, the command built
  for the segment is handed to the transcoder there, the event records that command with
  what the transcoder answered, and the file system afterwards is the one the transcoder
  left.
\<close>

definition attempted ::
  "env \<Rightarrow> string \<Rightarrow> string \<Rightarrow> string option \<Rightarrow> string list \<Rightarrow>
   nat \<times> string \<times> string option \<Rightarrow> filesystem \<Rightarrow> event \<Rightarrow> filesystem \<Rightarrow> bool" where
  "attempted E input_video output_prefix output_dir scale_args seg fs ev fs' =
     (case seg of
        (index, start_time, end_time) \<Rightarrow>
          (let output_filename =
                 create_safe_filename fs (base_filename output_prefix output_dir input_video index);
               cmd = build_cmd input_video start_time end_time scale_args output_filename
           in ev = Run cmd (fst (subprocess_run E cmd fs)) \<and> fs' = snd (subprocess_run E cmd fs)))"

text \<open>A world where directories and the probe file can be written and the transcoder fails on every call.\<close>

definition transcoder_fails :: env where
  "transcoder_fails =
     \<lparr>mkdir_p = (\<lambda>d fs. (None, fs)),
      open_write = (\<lambda>p fs. (None, fs)),
      os_remove = (\<lambda>p fs. (None, fs)),
      subprocess_run = (\<lambda>cmd fs. (CalledProcessError ''Invalid argument'', fs))\<rparr>"

text \<open>
  A world where the transcoder fails on every command that has an end time, and otherwise
  completes and leaves its output file.
\<close>

definition bounded_cuts_fail :: env where
  "bounded_cuts_fail =
     \<lparr>mkdir_p = (\<lambda>d fs. (None, fs)),
      open_write = (\<lambda>p fs. (None, fs)),
      os_remove = (\<lambda>p fs. (None, fs)),
      subprocess_run = (\<lambda>cmd fs.
        if ''-to'' \<in> set cmd then (CalledProcessError ''Invalid argument'', fs)
        else (Completed, finsert (last cmd) fs))\<rparr>"

text \<open>A world where a file can be written and not removed.\<close>

definition remove_denied :: env where
  "remove_denied =
     \<lparr>mkdir_p = (\<lambda>d fs. (None, fs)),
      open_write = (\<lambda>p fs. (None, finsert p fs)),
      os_remove = (\<lambda>p fs. (Some (PermissionError ''[Errno 13] Permission denied''), fs)),
      subprocess_run = (\<lambda>cmd fs. (Completed, fs))\<rparr>"

text \<open>A world where nothing can be written.\<close>

definition read_only :: env where
  "read_only =
     \<lparr>mkdir_p = (\<lambda>d fs. (None, fs)),
      open_write = (\<lambda>p fs. (Some (PermissionError ''[Errno 13] Permission denied''), fs)),
      os_remove = (\<lambda>p fs. (None, fs)),
      subprocess_run = (\<lambda>cmd fs. (Completed, fs))\<rparr>"

text \<open>
  How the transcoder reads an argument vector, as far as the commands built here go:
  after the program name, an argument that starts with a dash is an option; \<^verbatim>\<open>-y\<close>
  stands alone, every other option takes the next argument as its value; any other
  argument is an output path.
\<close>

definition is_option :: "string \<Rightarrow> bool" where
  "is_option a = (case a of [] \<Rightarrow> False | c # _ \<Rightarrow> c = CHR ''-'')"

fun ffmpeg_options :: "string list \<Rightarrow> (string \<times> string option) list" where
  "ffmpeg_options [] = []"
| "ffmpeg_options [a] = (if is_option a then [(a, None)] else [])"
| "ffmpeg_options (a # v # rest) =
     (if a = ''-y'' then (a, None) # ffmpeg_options (v # rest)
      else if is_option a then (a, Some v) # ffmpeg_options rest
      else ffmpeg_options (v # rest))"

text \<open>The copy-codecs flag is \<^verbatim>\<open>-c copy\<close>; a scale filter argument is \<^verbatim>\<open>-vf scale=...\<close>.\<close>

definition copy_codecs :: "string list \<Rightarrow> bool" where
  "copy_codecs cmd = ((''-c'', Some ''copy'') \<in> set (ffmpeg_options (tl cmd)))"

definition is_scale_filter :: "string \<times> string option \<Rightarrow> bool" where
  "is_scale_filter ov =
     (case ov of
        (opt, Some v) \<Rightarrow> opt = ''-vf'' \<and> take 6 v = ''scale=''
      | (opt, None) \<Rightarrow> False)"

definition scale_filters :: "string list \<Rightarrow> nat" where
  "scale_filters cmd = length (filter is_scale_filter (ffmpeg_options (tl cmd)))"

text \<open>The pattern \<^verbatim>\<open>\d{2}:\d{2}:\d{2}\<close>, matched against the whole string.\<close>

definition matches_hhmmss :: "string \<Rightarrow> bool" where
  "matches_hhmmss s =
     (length s = 8 \<and> is_digit (s ! 0) \<and> is_digit (s ! 1) \<and> s ! 2 = CHR '':'' \<and>
      is_digit (s ! 3) \<and> is_digit (s ! 4) \<and> s ! 5 = CHR '':'' \<and>
      is_digit (s ! 6) \<and> is_digit (s ! 7))"

text \<open>
  A raw timestamp within the usual ranges: one, two or three integer fields, seconds and
  minutes from 0 to 59, hours from 0 to 99.
\<close>

definition field_between :: "int \<Rightarrow> int \<Rightarrow> string \<Rightarrow> bool" where
  "field_between lo hi p = (case py_int p of None \<Rightarrow> False | Some v \<Rightarrow> lo \<le> v \<and> v \<le> hi)"

definition in_range_fields :: "string \<Rightarrow> bool" where
  "in_range_fields raw =
     (case split CHR '':'' (strip raw) of
        [p0] \<Rightarrow> field_between 0 59 p0
      | [p0, p1] \<Rightarrow> field_between 0 59 p0 \<and> field_between 0 59 p1
      | [p0, p1, p2] \<Rightarrow> field_between 0 99 p0 \<and> field_between 0 59 p1 \<and> field_between 0 59 p2
      | _ \<Rightarrow> False)"

text \<open>The string \<^verbatim>\<open>HH:MM:SS\<close> of three numbers below 100, two digits each.\<close>

definition two_digits :: "nat \<Rightarrow> string" where
  "two_digits v = [digit_char (v div 10), digit_char (v mod 10)]"

definition hhmmss :: "nat \<Rightarrow> nat \<Rightarrow> nat \<Rightarrow> string" where
  "hhmmss h m s = two_digits h @ '':'' @ two_digits m @ '':'' @ two_digits s"

text \<open>The canonical strings of the timestamps within the usual ranges.\<close>

definition canonical :: "string \<Rightarrow> bool" where
  "canonical t = (\<exists>h m s. h < 100 \<and> m < 60 \<and> s < 60 \<and> t = hhmmss h m s)"

section \<open>Decimal digits: \<open>int\<close> reads back what \<open>str\<close> prints\<close>

lemma of_char_digit_char: "d < 10 \<Longrightarrow> (of_char (digit_char d) :: nat) = 48 + d"
  by (simp add: digit_char_def)

lemma is_digit_digit_char: "d < 10 \<Longrightarrow> is_digit (digit_char d)"
  by (simp add: is_digit_def of_char_digit_char)

lemma digit_val_digit_char: "d < 10 \<Longrightarrow> digit_val (digit_char d) = d"
  by (simp add: digit_val_def of_char_digit_char)

lemma str_nat_digits: "list_all is_digit (str_nat n)"
proof (induction n rule: str_nat.induct)
  case (1 n)
  show ?case
  proof (cases "n < 10")
    case True
    then show ?thesis by (subst str_nat.simps) (simp add: is_digit_digit_char)
  next
    case False
    with 1 show ?thesis by (subst str_nat.simps) (simp add: is_digit_digit_char)
  qed
qed

lemma str_nat_nonempty: "str_nat n \<noteq> []"
  by (subst str_nat.simps) simp

lemma parse_digits_snoc:
  "list_all is_digit xs \<Longrightarrow> is_digit c \<Longrightarrow>
   parse_digits (xs @ [c]) acc = map_option (\<lambda>a. 10 * a + digit_val c) (parse_digits xs acc)"
  by (induction xs arbitrary: acc) simp_all

lemma parse_digits_str_nat: "parse_digits (str_nat n) 0 = Some n"
proof (induction n rule: str_nat.induct)
  case (1 n)
  show ?case
  proof (cases "n < 10")
    case True
    then show ?thesis
      by (subst str_nat.simps) (simp add: is_digit_digit_char digit_val_digit_char)
  next
    case False
    with 1 have "parse_digits (str_nat (n div 10)) 0 = Some (n div 10)" by simp
    with False show ?thesis
      by (subst str_nat.simps)
         (simp add: parse_digits_snoc str_nat_digits is_digit_digit_char digit_val_digit_char)
  qed
qed

lemma str_nat_inject: "str_nat m = str_nat n \<Longrightarrow> m = n"
  by (metis parse_digits_str_nat option.inject)

lemma inj_numbered: "inj (numbered base_name ext)"
  by (auto simp: inj_def numbered_def dest: str_nat_inject)

text \<open>
  The loop of \<^verbatim>\<open>_create_safe_filename\<close> ends: the candidates are pairwise different, and
  each pass leaves one existing candidate less ahead of the counter.
\<close>

termination find_counter
proof (relation "measure (\<lambda>(fs, b, e, c). card {n. c \<le> n \<and> numbered b e n |\<in>| fs})")
  show "wf (measure (\<lambda>(fs, b, e, c). card {n. c \<le> n \<and> numbered b e n |\<in>| fs}))"
    by simp
next
  fix fs :: filesystem and base_name ext :: string and counter :: nat
  assume ex: "numbered base_name ext counter |\<in>| fs"
  let ?S = "\<lambda>c. {n. c \<le> n \<and> numbered base_name ext n |\<in>| fs}"
  have "finite (numbered base_name ext -` fset fs)"
    by (rule finite_vimageI) (simp_all add: inj_numbered)
  then have fin: "finite (?S counter)"
    by (rule rev_finite_subset) auto
  have "counter \<in> ?S counter" "counter \<notin> ?S (counter + 1)" "?S (counter + 1) \<subseteq> ?S counter"
    using ex by auto
  then have "?S (counter + 1) \<subset> ?S counter"
    by blast
  then have "card (?S (counter + 1)) < card (?S counter)"
    using fin by (rule psubset_card_mono[rotated])
  then show "((fs, base_name, ext, counter + 1), (fs, base_name, ext, counter))
        \<in> measure (\<lambda>(fs, b, e, c). card {n. c \<le> n \<and> numbered b e n |\<in>| fs})"
    by simp
qed

declare find_counter.simps [simp del]

section \<open>Timestamps\<close>

text \<open>
  C1. The claim: normalization carries overflow into the higher fields, so that
  \<^verbatim>\<open>"90"\<close> becomes \<^verbatim>\<open>"00:01:30"\<close>. The code formats each field on its own:
  \<^verbatim>\<open>"90"\<close> becomes \<^verbatim>\<open>"00:00:90"\<close>, while \<^verbatim>\<open>"1:30"\<close> and \<^verbatim>\<open>"01:30:00"\<close> come out as
  claimed. The command line help of the program gives \<^verbatim>\<open>-t "90" "225" "320"\<close> as
  timestamps in seconds; on them the boundaries are sorted as strings into the order
  225, 320, 90.
\<close>

theorem parse_timestamp_no_carry:
  "parse_timestamp ''90'' = Inr ''00:00:90'' \<and>
   parse_timestamp ''90'' \<noteq> Inr ''00:01:30'' \<and>
   parse_timestamp ''1:30'' = Inr ''00:01:30'' \<and>
   parse_timestamp ''01:30:00'' = Inr ''01:30:00'' \<and>
   plan [''90'', ''225'', ''320''] = Inr [''00:00:00'', ''00:00:225'', ''00:00:320'', ''00:00:90'']"
  by code_simp

section \<open>Scale settings\<close>

text \<open>
  C5, as claimed: every preset resolves to its fixed width, height and bitrates, with an
  audio bitrate of 128k for every preset. The audio bitrate of the preset 480p is 96k.
\<close>

theorem preset_480p_audio_96k:
  "parse_scale_settings ''480p'' =
     Inr [''-vf'', ''scale=854:480'', ''-b:v'', ''1M'', ''-b:a'', ''96k'']"
  by code_simp

text \<open>
  C5, amended: a selector that is one of the four preset names, in any letter case and
  with any surrounding whitespace, resolves to that preset's fixed arguments: 720p to
  1280 by 720 at 2M video and 128k audio, 480p to 854 by 480 at 1M and 96k, 360p to
  640 by 360 at 500k and 64k, 240p to 426 by 240 at 250k and 64k.
\<close>

theorem presets_resolve:
  "(strip (lower raw) = ''720p'' \<longrightarrow>
      parse_scale_settings raw =
        Inr [''-vf'', ''scale=1280:720'', ''-b:v'', ''2M'', ''-b:a'', ''128k'']) \<and>
   (strip (lower raw) = ''480p'' \<longrightarrow>
      parse_scale_settings raw =
        Inr [''-vf'', ''scale=854:480'', ''-b:v'', ''1M'', ''-b:a'', ''96k'']) \<and>
   (strip (lower raw) = ''360p'' \<longrightarrow>
      parse_scale_settings raw =
        Inr [''-vf'', ''scale=640:360'', ''-b:v'', ''500k'', ''-b:a'', ''64k'']) \<and>
   (strip (lower raw) = ''240p'' \<longrightarrow>
      parse_scale_settings raw =
        Inr [''-vf'', ''scale=426:240'', ''-b:v'', ''250k'', ''-b:a'', ''64k''])"
  by (simp add: parse_scale_settings_def presets_def)

theorem presets_resolve_witness:
  "parse_scale_settings '' 720P'' =
     Inr [''-vf'', ''scale=1280:720'', ''-b:v'', ''2M'', ''-b:a'', ''128k''] \<and>
   parse_scale_settings ''480p'' =
     Inr [''-vf'', ''scale=854:480'', ''-b:v'', ''1M'', ''-b:a'', ''96k''] \<and>
   parse_scale_settings ''360P '' =
     Inr [''-vf'', ''scale=640:360'', ''-b:v'', ''500k'', ''-b:a'', ''64k''] \<and>
   parse_scale_settings ''240p'' =
     Inr [''-vf'', ''scale=426:240'', ''-b:v'', ''250k'', ''-b:a'', ''64k'']"
proof -
  have h1: "strip (lower '' 720P'') = ''720p''" by code_simp
  have h2: "strip (lower ''480p'') = ''480p''" by code_simp
  have h3: "strip (lower ''360P '') = ''360p''" by code_simp
  have h4: "strip (lower ''240p'') = ''240p''" by code_simp
  show ?thesis
    using presets_resolve [of "'' 720P''"] presets_resolve [of "''480p''"]
      presets_resolve [of "''360P ''"] presets_resolve [of "''240p''"] h1 h2 h3 h4
    by blast
qed

section \<open>Safe file names\<close>

lemma find_counter_unused: "numbered base_name ext (find_counter fs base_name ext counter) |\<notin>| fs"
proof (induction fs base_name ext counter rule: find_counter.induct)
  case (1 fs base_name ext counter)
  then show ?case by (subst find_counter.simps) simp
qed

lemma find_counter_ge: "counter \<le> find_counter fs base_name ext counter"
proof (induction fs base_name ext counter rule: find_counter.induct)
  case (1 fs base_name ext counter)
  show ?case
  proof (cases "numbered base_name ext counter |\<in>| fs")
    case True
    with 1 have "counter + 1 \<le> find_counter fs base_name ext (counter + 1)" by simp
    with True show ?thesis by (subst find_counter.simps) simp
  next
    case False
    then show ?thesis by (subst find_counter.simps) simp
  qed
qed

lemma find_counter_below:
  "counter \<le> m \<Longrightarrow> m < find_counter fs base_name ext counter \<Longrightarrow> numbered base_name ext m |\<in>| fs"
proof (induction fs base_name ext counter rule: find_counter.induct)
  case (1 fs base_name ext counter)
  show ?case
  proof (cases "numbered base_name ext counter |\<in>| fs")
    case True
    note ex = this
    show ?thesis
    proof (cases "m = counter")
      case True
      with ex show ?thesis by simp
    next
      case False
      with "1.prems" have "counter + 1 \<le> m" by simp
      moreover from "1.prems" ex have "m < find_counter fs base_name ext (counter + 1)"
        by (subst (asm) find_counter.simps) simp
      ultimately show ?thesis using "1.IH" ex by simp
    qed
  next
    case False
    with "1.prems" show ?thesis by (subst (asm) find_counter.simps) simp
  qed
qed

lemma find_counter_grows:
  assumes sub: "fs |\<subseteq>| fs'"
    and made: "numbered base_name ext (find_counter fs base_name ext counter) |\<in>| fs'"
  shows "find_counter fs base_name ext counter < find_counter fs' base_name ext counter"
proof (rule ccontr)
  let ?n = "find_counter fs base_name ext counter"
  let ?n' = "find_counter fs' base_name ext counter"
  assume "\<not> ?n < ?n'"
  then have le: "?n' \<le> ?n" by simp
  have ge: "counter \<le> ?n'" by (rule find_counter_ge)
  have "numbered base_name ext ?n' |\<in>| fs'"
  proof (cases "?n' = ?n")
    case True
    with made show ?thesis by simp
  next
    case False
    with le have "?n' < ?n" by simp
    with ge have "numbered base_name ext ?n' |\<in>| fs" by (rule find_counter_below)
    with sub show ?thesis by auto
  qed
  then show False using find_counter_unused by blast
qed

lemma splitext_append: "splitext p = (base_name, ext) \<Longrightarrow> base_name @ ext = p"
  by (auto simp: splitext_def Let_def split: if_splits)

text \<open>
  C9. When the candidate does not exist it is returned unchanged, and naming it again
  gives the same path. When it exists, the result is \<^verbatim>\<open>{stem}_{n}{ext}\<close> for the smallest
  \<open>n \<ge> 1\<close> whose path does not exist, where stem and ext are the two parts
  \<^verbatim>\<open>os.path.splitext\<close> cuts the candidate into. A repeated call is one made after the
  path returned before has come to exist, nothing having been removed: it returns a
  strictly larger suffix.
\<close>

theorem create_safe_filename_unique:
  assumes sp: "splitext candidate = (stem, ext)"
  shows "stem @ ext = candidate \<and>
    (candidate |\<notin>| fs \<longrightarrow>
       create_safe_filename fs candidate = candidate \<and>
       create_safe_filename fs (create_safe_filename fs candidate) = candidate) \<and>
    (candidate |\<in>| fs \<longrightarrow>
       (\<exists>n. 1 \<le> n \<and>
          create_safe_filename fs candidate = numbered stem ext n \<and>
          numbered stem ext n |\<notin>| fs \<and>
          (\<forall>m. 1 \<le> m \<and> m < n \<longrightarrow> numbered stem ext m |\<in>| fs) \<and>
          (\<forall>fs'. fs |\<subseteq>| fs' \<and> numbered stem ext n |\<in>| fs' \<longrightarrow>
             (\<exists>n'. n < n' \<and> create_safe_filename fs' candidate = numbered stem ext n'))))"
proof (intro conjI impI)
  show "stem @ ext = candidate" using sp by (rule splitext_append)
next
  assume "candidate |\<notin>| fs"
  then show "create_safe_filename fs candidate = candidate"
    by (simp add: create_safe_filename_def)
next
  assume "candidate |\<notin>| fs"
  then show "create_safe_filename fs (create_safe_filename fs candidate) = candidate"
    by (simp add: create_safe_filename_def)
next
  assume ex: "candidate |\<in>| fs"
  let ?n = "find_counter fs stem ext 1"
  have res: "create_safe_filename fs candidate = numbered stem ext ?n"
    using ex sp by (simp add: create_safe_filename_def)
  have later: "\<exists>n'. ?n < n' \<and> create_safe_filename fs' candidate = numbered stem ext n'"
    if "fs |\<subseteq>| fs' \<and> numbered stem ext ?n |\<in>| fs'" for fs'
  proof -
    from that ex have "candidate |\<in>| fs'" by auto
    then have "create_safe_filename fs' candidate = numbered stem ext (find_counter fs' stem ext 1)"
      using sp by (simp add: create_safe_filename_def)
    moreover have "?n < find_counter fs' stem ext 1"
      using that by (intro find_counter_grows) simp_all
    ultimately show ?thesis by blast
  qed
  have "1 \<le> ?n" by (rule find_counter_ge)
  moreover have "numbered stem ext ?n |\<notin>| fs" by (rule find_counter_unused)
  moreover have "\<forall>m. 1 \<le> m \<and> m < ?n \<longrightarrow> numbered stem ext m |\<in>| fs"
    using find_counter_below by blast
  ultimately show "\<exists>n. 1 \<le> n \<and>
          create_safe_filename fs candidate = numbered stem ext n \<and>
          numbered stem ext n |\<notin>| fs \<and>
          (\<forall>m. 1 \<le> m \<and> m < n \<longrightarrow> numbered stem ext m |\<in>| fs) \<and>
          (\<forall>fs'. fs |\<subseteq>| fs' \<and> numbered stem ext n |\<in>| fs' \<longrightarrow>
             (\<exists>n'. n < n' \<and> create_safe_filename fs' candidate = numbered stem ext n'))"
    using res later by blast
qed

text \<open>
  With \<^verbatim>\<open>out/a_segment_1.mp4\<close> and \<^verbatim>\<open>out/a_segment_1_1.mp4\<close> on disk: a fresh candidate is
  kept, the existing one gets suffix 2, and once that exists too the suffix is beyond 2.
\<close>

theorem create_safe_filename_unique_witness:
  "splitext ''out/a_segment_1.mp4'' = (''out/a_segment_1'', ''.mp4'') \<and>
   create_safe_filename {|''out/a_segment_1.mp4'', ''out/a_segment_1_1.mp4''|} ''out/a_segment_2.mp4''
     = ''out/a_segment_2.mp4'' \<and>
   create_safe_filename {|''out/a_segment_1.mp4'', ''out/a_segment_1_1.mp4''|} ''out/a_segment_1.mp4''
     = ''out/a_segment_1_2.mp4'' \<and>
   (\<exists>n'. 2 < n' \<and>
      create_safe_filename
        {|''out/a_segment_1_2.mp4'', ''out/a_segment_1.mp4'', ''out/a_segment_1_1.mp4''|}
        ''out/a_segment_1.mp4'' = numbered ''out/a_segment_1'' ''.mp4'' n')"
proof -
  let ?fs = "{|''out/a_segment_1.mp4'', ''out/a_segment_1_1.mp4''|}"
  let ?fs' = "{|''out/a_segment_1_2.mp4'', ''out/a_segment_1.mp4'', ''out/a_segment_1_1.mp4''|}"
  have sp1: "splitext ''out/a_segment_1.mp4'' = (''out/a_segment_1'', ''.mp4'')" by code_simp
  have sp2: "splitext ''out/a_segment_2.mp4'' = (''out/a_segment_2'', ''.mp4'')" by code_simp
  have new: "''out/a_segment_2.mp4'' |\<notin>| ?fs" by simp
  have old: "''out/a_segment_1.mp4'' |\<in>| ?fs" by simp
  have n1: "numbered ''out/a_segment_1'' ''.mp4'' 1 = ''out/a_segment_1_1.mp4''" by code_simp
  have n2: "numbered ''out/a_segment_1'' ''.mp4'' 2 = ''out/a_segment_1_2.mp4''" by code_simp
  from create_safe_filename_unique [OF sp2, of ?fs] new
  have a: "create_safe_filename ?fs ''out/a_segment_2.mp4'' = ''out/a_segment_2.mp4''"
    by blast
  from create_safe_filename_unique [OF sp1, of ?fs] old
  obtain n where n: "1 \<le> n"
    "create_safe_filename ?fs ''out/a_segment_1.mp4'' = numbered ''out/a_segment_1'' ''.mp4'' n"
    "numbered ''out/a_segment_1'' ''.mp4'' n |\<notin>| ?fs"
    "\<forall>m. 1 \<le> m \<and> m < n \<longrightarrow> numbered ''out/a_segment_1'' ''.mp4'' m |\<in>| ?fs"
    "\<forall>fs'. ?fs |\<subseteq>| fs' \<and> numbered ''out/a_segment_1'' ''.mp4'' n |\<in>| fs' \<longrightarrow>
       (\<exists>n'. n < n' \<and> create_safe_filename fs' ''out/a_segment_1.mp4'' = numbered ''out/a_segment_1'' ''.mp4'' n')"
    by blast
  have "n \<noteq> 1" using n(3) n1 by auto
  moreover have "\<not> 2 < n"
  proof
    assume "2 < n"
    with n(4) have "numbered ''out/a_segment_1'' ''.mp4'' 2 |\<in>| ?fs" by simp
    then show False by (simp add: n2)
  qed
  ultimately have n_eq: "n = 2" using n(1) by simp
  have b: "create_safe_filename ?fs ''out/a_segment_1.mp4'' = ''out/a_segment_1_2.mp4''"
    using n(2) n_eq n2 by simp
  have "?fs |\<subseteq>| ?fs' \<and> numbered ''out/a_segment_1'' ''.mp4'' n |\<in>| ?fs'"
    by (simp add: n_eq n2)
  with n(5) have c: "\<exists>n'. 2 < n' \<and>
      create_safe_filename ?fs' ''out/a_segment_1.mp4'' = numbered ''out/a_segment_1'' ''.mp4'' n'"
    using n_eq by blast
  show ?thesis using sp1 a b c by blast
qed

section \<open>Running the segments\<close>

lemma last_build_cmd: "last (build_cmd input_video start_time end_time scale_args out) = out"
  by (simp add: build_cmd_def split: option.splits)

lemma successes_append: "successes (xs @ ys) = successes xs @ successes ys"
  by (induction xs rule: successes.induct) simp_all

lemma length_segments: "length (segments bs) = length bs"
  by (simp add: segments_def)

lemma preflight_events:
  assumes mk: "\<forall>d. truthy output_dir = Some d \<longrightarrow> mkdir_p E d fs = (None, fs0)"
    and nomk: "truthy output_dir = None \<longrightarrow> fs0 = fs"
    and td: "test_dir = (case truthy output_dir of Some d \<Rightarrow> d | None \<Rightarrow> ''.'')"
  shows "preflight E output_dir fs =
     (case truthy output_dir of
        Some d \<Rightarrow> (fst (probe E test_dir fs0), Mkdir d # snd (probe E test_dir fs0))
      | None \<Rightarrow> probe E test_dir fs0)"
  using mk nomk td by (auto simp: preflight_def split: option.splits prod.splits)

lemma segment_step_attempted:
  "\<exists>fs' ev. segment_step E iv pre od sa seg (fs, outs, evs) = (fs', outs @ successes [ev], evs @ [ev]) \<and>
     attempted E iv pre od sa seg fs ev fs'"
proof -
  obtain i st en where seg: "seg = (i, st, en)" by (cases seg) auto
  define out where "out = create_safe_filename fs (base_filename pre od iv i)"
  define cmd where "cmd = build_cmd iv st en sa out"
  obtain r fs' where run: "subprocess_run E cmd fs = (r, fs')"
    by (cases "subprocess_run E cmd fs") auto
  have l: "last cmd = out" by (simp add: cmd_def last_build_cmd)
  have step: "segment_step E iv pre od sa seg (fs, outs, evs) =
      (fs', outs @ successes [Run cmd r], evs @ [Run cmd r])"
  proof (cases r)
    case Completed
    then show ?thesis
      unfolding segment_step_def seg Let_def prod.case out_def [symmetric] cmd_def [symmetric] run
      by (simp add: l)
  next
    case (CalledProcessError x)
    then show ?thesis
      unfolding segment_step_def seg Let_def prod.case out_def [symmetric] cmd_def [symmetric] run
      by simp
  next
    case (OtherException x)
    then show ?thesis
      unfolding segment_step_def seg Let_def prod.case out_def [symmetric] cmd_def [symmetric] run
      by simp
  qed
  have "attempted E iv pre od sa seg fs (Run cmd r) fs'"
    unfolding attempted_def seg prod.case Let_def out_def [symmetric] cmd_def [symmetric]
    by (simp add: run)
  with step show ?thesis by blast
qed

lemma successes_failed:
  assumes "attempted E iv pre od sa seg fs ev fs'"
    and "\<forall>cmd fs. fst (subprocess_run E cmd fs) \<noteq> Completed"
  shows "successes [ev] = []"
proof -
  from assms(1) obtain cmd where ev: "ev = Run cmd (fst (subprocess_run E cmd fs))"
    by (auto simp: attempted_def Let_def split: prod.splits)
  from assms(2) have "fst (subprocess_run E cmd fs) \<noteq> Completed" by blast
  then show ?thesis unfolding ev by (cases "fst (subprocess_run E cmd fs)") simp_all
qed

lemma fold_segment_step:
  "\<exists>runs fss. fold (segment_step E iv pre od sa) segs (fs, outs, evs) =
       (last fss, outs @ successes runs, evs @ runs) \<and>
     length runs = length segs \<and> length fss = length segs + 1 \<and> fss ! 0 = fs \<and>
     (\<forall>i<length segs. attempted E iv pre od sa (segs ! i) (fss ! i) (runs ! i) (fss ! (i + 1))) \<and>
     ((\<forall>cmd fs. fst (subprocess_run E cmd fs) \<noteq> Completed) \<longrightarrow> successes runs = [])"
proof (induction segs arbitrary: fs outs evs)
  case Nil
  show ?case by (intro exI [of _ "[]"] exI [of _ "[fs]"]) simp
next
  case (Cons seg segs)
  obtain fs1 ev where step:
    "segment_step E iv pre od sa seg (fs, outs, evs) = (fs1, outs @ successes [ev], evs @ [ev])"
    and att: "attempted E iv pre od sa seg fs ev fs1"
    using segment_step_attempted by blast
  from Cons.IH [of fs1 "outs @ successes [ev]" "evs @ [ev]"]
  obtain runs fss where rest:
    "fold (segment_step E iv pre od sa) segs (fs1, outs @ successes [ev], evs @ [ev]) =
       (last fss, (outs @ successes [ev]) @ successes runs, (evs @ [ev]) @ runs)"
    "length runs = length segs" "length fss = length segs + 1" "fss ! 0 = fs1"
    "\<forall>i<length segs. attempted E iv pre od sa (segs ! i) (fss ! i) (runs ! i) (fss ! (i + 1))"
    "(\<forall>cmd fs. fst (subprocess_run E cmd fs) \<noteq> Completed) \<longrightarrow> successes runs = []"
    by blast
  have ne: "fss \<noteq> []" using rest(3) by auto
  have app: "successes (ev # runs) = successes [ev] @ successes runs"
    using successes_append [of "[ev]" runs] by simp
  have a: "fold (segment_step E iv pre od sa) (seg # segs) (fs, outs, evs) =
       (last (fs # fss), outs @ successes (ev # runs), evs @ ev # runs)"
    using ne by (simp add: step rest(1) app del: successes.simps)
  have b: "length (ev # runs) = length (seg # segs)" "length (fs # fss) = length (seg # segs) + 1"
    "(fs # fss) ! 0 = fs"
    using rest(2) rest(3) by simp_all
  have c: "\<forall>i<length (seg # segs).
      attempted E iv pre od sa ((seg # segs) ! i) ((fs # fss) ! i) ((ev # runs) ! i) ((fs # fss) ! (i + 1))"
  proof (intro allI impI)
    fix i assume "i < length (seg # segs)"
    then show "attempted E iv pre od sa ((seg # segs) ! i) ((fs # fss) ! i) ((ev # runs) ! i) ((fs # fss) ! (i + 1))"
      using att rest(4) rest(5) by (cases i) simp_all
  qed
  have d: "(\<forall>cmd fs. fst (subprocess_run E cmd fs) \<noteq> Completed) \<longrightarrow> successes (ev # runs) = []"
  proof
    assume never: "\<forall>cmd fs. fst (subprocess_run E cmd fs) \<noteq> Completed"
    with att have "successes [ev] = []" by (rule successes_failed)
    moreover from never rest(6) have "successes runs = []" by blast
    ultimately show "successes (ev # runs) = []" by (simp add: app)
  qed
  from a b c d show ?case by blast
qed

text \<open>
  C7. Once planning, the preflight and the scale settings have succeeded, the loop attempts
  every planned segment, in order: segment \<open>i\<close> is named and built in the file system the
  run before it left, its command is handed to the transcoder, and whatever the
  transcoder answers the loop goes on with the next segment. The call returns normally,
  with the outputs of exactly those runs that completed. When no run completes, every
  segment has still been attempted and the returned list is empty.
\<close>

theorem cut_video_attempts_every_segment:
  assumes pl: "plan timestamps = Inr parsed_timestamps"
    and pre: "preflight E output_dir fs = (Inr fs1, evs)"
    and sc: "scale_args_of scale = Inr scale_args"
  shows "\<exists>runs fss.
      cut_video E input_video timestamps output_prefix scale output_dir fs =
        (Inr (successes runs), evs @ runs) \<and>
      length runs = length parsed_timestamps \<and>
      length fss = length parsed_timestamps + 1 \<and> fss ! 0 = fs1 \<and>
      (\<forall>i<length parsed_timestamps.
         attempted E input_video output_prefix output_dir scale_args
           (segments parsed_timestamps ! i) (fss ! i) (runs ! i) (fss ! (i + 1))) \<and>
      ((\<forall>cmd fs. fst (subprocess_run E cmd fs) \<noteq> Completed) \<longrightarrow> successes runs = [])"
proof -
  from fold_segment_step [of E input_video output_prefix output_dir scale_args
      "segments parsed_timestamps" fs1 "[]" "[]"]
  obtain runs fss where f:
    "fold (segment_step E input_video output_prefix output_dir scale_args)
       (segments parsed_timestamps) (fs1, [], []) = (last fss, successes runs, runs)"
    "length runs = length (segments parsed_timestamps)"
    "length fss = length (segments parsed_timestamps) + 1" "fss ! 0 = fs1"
    "\<forall>i<length (segments parsed_timestamps).
       attempted E input_video output_prefix output_dir scale_args
         (segments parsed_timestamps ! i) (fss ! i) (runs ! i) (fss ! (i + 1))"
    "(\<forall>cmd fs. fst (subprocess_run E cmd fs) \<noteq> Completed) \<longrightarrow> successes runs = []"
    by auto
  have "cut_video E input_video timestamps output_prefix scale output_dir fs =
        (Inr (successes runs), evs @ runs)"
    by (simp add: cut_video_def pl pre sc run_segments_def f(1))
  with f(2-6) show ?thesis unfolding length_segments by blast
qed

text \<open>
  One timestamp \<^verbatim>\<open>"0"\<close> plans one segment; with a transcoder that fails, the call still
  returns, with no output file and one run after the two steps of the probe. With a
  transcoder that fails on the first of two segments only, the second is run and is the
  one output reported.
\<close>

theorem cut_video_attempts_every_segment_witness:
  "plan [''0''] = Inr [''00:00:00''] \<and>
   (\<exists>runs.
      cut_video transcoder_fails ''movie.mp4'' [''0''] ''output'' None None {||} =
        (Inr [], [OpenWrite ''./temp_permission_test.tmp'', Remove ''./temp_permission_test.tmp''] @ runs) \<and>
      length runs = 1 \<and>
      attempted transcoder_fails ''movie.mp4'' ''output'' None []
        (segments [''00:00:00''] ! 0) {||} (runs ! 0) {||}) \<and>
   cut_video bounded_cuts_fail ''movie.mp4'' [''1:30''] ''output'' None None {||} =
     (Inr [''output_segment_2.mp4''],
      [OpenWrite ''./temp_permission_test.tmp'', Remove ''./temp_permission_test.tmp'',
       Run [''ffmpeg'', ''-i'', ''movie.mp4'', ''-ss'', ''00:00:00'', ''-to'', ''00:01:30'',
            ''-c'', ''copy'', ''-avoid_negative_ts'', ''make_zero'', ''-y'', ''output_segment_1.mp4'']
           (CalledProcessError ''Invalid argument''),
       Run [''ffmpeg'', ''-i'', ''movie.mp4'', ''-ss'', ''00:01:30'',
            ''-c'', ''copy'', ''-avoid_negative_ts'', ''make_zero'', ''-y'', ''output_segment_2.mp4'']
           Completed])"
proof -
  have pl: "plan [''0''] = Inr [''00:00:00'']" by code_simp
  have pre: "preflight transcoder_fails None {||} =
      (Inr {||}, [OpenWrite ''./temp_permission_test.tmp'', Remove ''./temp_permission_test.tmp''])"
    by (simp add: preflight_def truthy_def probe_def transcoder_fails_def path_join_def Let_def)
  have sc: "scale_args_of None = Inr []"
    by (simp add: scale_args_of_def truthy_def)
  have never: "\<forall>cmd fs. fst (subprocess_run transcoder_fails cmd fs) \<noteq> Completed"
    by (simp add: transcoder_fails_def)
  from cut_video_attempts_every_segment [OF pl pre sc, of "''movie.mp4''" "''output''"]
  obtain runs fss where r:
    "cut_video transcoder_fails ''movie.mp4'' [''0''] ''output'' None None {||} =
       (Inr (successes runs),
        [OpenWrite ''./temp_permission_test.tmp'', Remove ''./temp_permission_test.tmp''] @ runs)"
    "length runs = length [''00:00:00'']" "fss ! 0 = {||}"
    "\<forall>i<length [''00:00:00'']. attempted transcoder_fails ''movie.mp4'' ''output'' None []
       (segments [''00:00:00''] ! i) (fss ! i) (runs ! i) (fss ! (i + 1))"
    "(\<forall>cmd fs. fst (subprocess_run transcoder_fails cmd fs) \<noteq> Completed) \<longrightarrow> successes runs = []"
    by blast
  from r(5) never have s: "successes runs = []" by blast
  from r(4) have a0: "attempted transcoder_fails ''movie.mp4'' ''output'' None []
       (segments [''00:00:00''] ! 0) (fss ! 0) (runs ! 0) (fss ! (0 + 1))" by simp
  then have "fss ! (0 + 1) = {||}"
    by (auto simp: attempted_def Let_def r(3) transcoder_fails_def split: prod.splits)
  with a0 have a: "attempted transcoder_fails ''movie.mp4'' ''output'' None []
       (segments [''00:00:00''] ! 0) {||} (runs ! 0) {||}" by (simp add: r(3))
  have first: "\<exists>runs.
      cut_video transcoder_fails ''movie.mp4'' [''0''] ''output'' None None {||} =
        (Inr [], [OpenWrite ''./temp_permission_test.tmp'', Remove ''./temp_permission_test.tmp''] @ runs) \<and>
      length runs = 1 \<and>
      attempted transcoder_fails ''movie.mp4'' ''output'' None []
        (segments [''00:00:00''] ! 0) {||} (runs ! 0) {||}"
    using r(1) r(2) s a by (intro exI [of _ runs]) simp
  have second: "cut_video bounded_cuts_fail ''movie.mp4'' [''1:30''] ''output'' None None {||} =
     (Inr [''output_segment_2.mp4''],
      [OpenWrite ''./temp_permission_test.tmp'', Remove ''./temp_permission_test.tmp'',
       Run [''ffmpeg'', ''-i'', ''movie.mp4'', ''-ss'', ''00:00:00'', ''-to'', ''00:01:30'',
            ''-c'', ''copy'', ''-avoid_negative_ts'', ''make_zero'', ''-y'', ''output_segment_1.mp4'']
           (CalledProcessError ''Invalid argument''),
       Run [''ffmpeg'', ''-i'', ''movie.mp4'', ''-ss'', ''00:01:30'',
            ''-c'', ''copy'', ''-avoid_negative_ts'', ''make_zero'', ''-y'', ''output_segment_2.mp4'']
           Completed])"
    by code_simp
  from pl first second show ?thesis by (intro conjI)
qed

text \<open>
  C10. After planning has succeeded, and the output directory (when one is given) has
  been created, the probe file \<^verbatim>\<open>temp_permission_test.tmp\<close> is written in the output
  directory, or in \<^verbatim>\<open>.\<close> when no output directory is supplied, and then removed. When the
  write raises a permission error, \<^verbatim>\<open>cut_video\<close> raises \<^verbatim>\<open>PermissionError\<close> and the write
  is its last effect; when the removal does, \<^verbatim>\<open>cut_video\<close> raises \<^verbatim>\<open>PermissionError\<close> and
  the removal is its last effect: no command is run. When both succeed, what follows
  runs in the file system that the removal left.
\<close>

theorem preflight_probe_unconditional:
  assumes pl: "plan timestamps = Inr parsed_timestamps"
    and td: "test_dir = (case truthy output_dir of Some d \<Rightarrow> d | None \<Rightarrow> ''.'')"
    and tf: "test_file = path_join test_dir ''temp_permission_test.tmp''"
    and mk: "\<forall>d. truthy output_dir = Some d \<longrightarrow> mkdir_p E d fs = (None, fs0)"
    and nomk: "truthy output_dir = None \<longrightarrow> fs0 = fs"
    and mkev: "made = (case truthy output_dir of Some d \<Rightarrow> [Mkdir d] | None \<Rightarrow> [])"
    and ow: "open_write E test_file fs0 = (written, fs1)"
    and rm: "os_remove E test_file fs1 = (removed, fs2)"
    and res: "cut_video E input_video timestamps output_prefix scale output_dir fs = (result, evs)"
  shows "(truthy output_dir = None \<longrightarrow> test_file = ''./temp_permission_test.tmp'') \<and>
    OpenWrite test_file \<in> set evs \<and>
    (\<forall>msg. written = Some (PermissionError msg) \<longrightarrow>
       (\<exists>m. result = Inl (PermissionError m)) \<and> evs = made @ [OpenWrite test_file]) \<and>
    (written = None \<longrightarrow>
       (\<forall>msg. removed = Some (PermissionError msg) \<longrightarrow>
          (\<exists>m. result = Inl (PermissionError m)) \<and>
          evs = made @ [OpenWrite test_file, Remove test_file]) \<and>
       (removed = None \<longrightarrow>
          preflight E output_dir fs = (Inr fs2, made @ [OpenWrite test_file, Remove test_file]) \<and>
          (\<exists>rest. evs = made @ [OpenWrite test_file, Remove test_file] @ rest \<and>
             (\<forall>scale_args. scale_args_of scale = Inr scale_args \<longrightarrow>
                (result, rest) =
                  (case run_segments E input_video output_prefix output_dir scale_args
                          parsed_timestamps fs2 of
                     (output_files, runs) \<Rightarrow> (Inr output_files, runs))))))"
proof -
  note pf = preflight_events [OF mk nomk td]
  have curdir: "truthy output_dir = None \<longrightarrow> test_file = ''./temp_permission_test.tmp''"
    by (simp add: tf td path_join_def)
  have pre: "preflight E output_dir fs = (fst (probe E test_dir fs0), made @ snd (probe E test_dir fs0))"
    unfolding pf mkev by (cases "truthy output_dir") (simp_all add: prod_eq_iff)
  show ?thesis
  proof (cases written)
    case (Some e)
    then have pr: "probe E test_dir fs0 = (Inl (reraise test_dir e), [OpenWrite test_file])"
      using ow by (simp add: probe_def tf [symmetric] Let_def)
    have cv: "result = Inl (reraise test_dir e)" "evs = made @ [OpenWrite test_file]"
      using res by (simp_all add: cut_video_def pl pre pr)
    have "\<forall>msg. e = PermissionError msg \<longrightarrow> (\<exists>m. result = Inl (PermissionError m))"
      using cv(1) by (simp add: reraise_def no_write_permission_def)
    with Some cv(2) curdir show ?thesis by simp
  next
    case None
    note wr = this
    show ?thesis
    proof (cases removed)
      case (Some e)
      then have pr: "probe E test_dir fs0 =
          (Inl (reraise test_dir e), [OpenWrite test_file, Remove test_file])"
        using ow rm wr by (simp add: probe_def tf [symmetric] Let_def)
      have cv: "result = Inl (reraise test_dir e)" "evs = made @ [OpenWrite test_file, Remove test_file]"
        using res by (simp_all add: cut_video_def pl pre pr)
      have "\<forall>msg. e = PermissionError msg \<longrightarrow> (\<exists>m. result = Inl (PermissionError m))"
        using cv(1) by (simp add: reraise_def no_write_permission_def)
      with Some wr cv(2) curdir show ?thesis by simp
    next
      case None
      then have pr: "probe E test_dir fs0 = (Inr fs2, [OpenWrite test_file, Remove test_file])"
        using ow rm wr by (simp add: probe_def tf [symmetric] Let_def)
      have pre': "preflight E output_dir fs = (Inr fs2, made @ [OpenWrite test_file, Remove test_file])"
        by (simp add: pre pr)
      have "\<exists>rest. evs = made @ [OpenWrite test_file, Remove test_file] @ rest \<and>
             (\<forall>scale_args. scale_args_of scale = Inr scale_args \<longrightarrow>
                (result, rest) =
                  (case run_segments E input_video output_prefix output_dir scale_args
                          parsed_timestamps fs2 of
                     (output_files, runs) \<Rightarrow> (Inr output_files, runs)))"
      proof (cases "scale_args_of scale")
        case (Inl e)
        then have "evs = made @ [OpenWrite test_file, Remove test_file] @ []"
          using res by (simp add: cut_video_def pl pre')
        with Inl show ?thesis by (intro exI [of _ "[]"]) simp
      next
        case (Inr sa)
        obtain outs runs where rs: "run_segments E input_video output_prefix output_dir sa
            parsed_timestamps fs2 = (outs, runs)"
          by (cases "run_segments E input_video output_prefix output_dir sa parsed_timestamps fs2") auto
        have "result = Inr outs" "evs = made @ [OpenWrite test_file, Remove test_file] @ runs"
          using res by (simp_all add: cut_video_def pl pre' Inr rs)
        with Inr rs show ?thesis by (intro exI [of _ runs]) simp
      qed
      moreover then have "OpenWrite test_file \<in> set evs" by auto
      ultimately show ?thesis using None wr curdir pre' by simp
    qed
  qed
qed

text \<open>
  No output directory and one cut point. Where nothing can be written, the only effect is
  the attempt to write \<^verbatim>\<open>./temp_permission_test.tmp\<close>; where the file can be written and
  not removed, the attempt to remove it is the last one.
\<close>

theorem preflight_probe_unconditional_witness:
  "plan [''1:30''] = Inr [''00:00:00'', ''00:01:30''] \<and>
   cut_video read_only ''movie.mp4'' [''1:30''] ''output'' None None {||} =
     (Inl (no_write_permission ''.''), [OpenWrite ''./temp_permission_test.tmp'']) \<and>
   (\<exists>m. fst (cut_video read_only ''movie.mp4'' [''1:30''] ''output'' None None {||}) =
      Inl (PermissionError m)) \<and>
   cut_video remove_denied ''movie.mp4'' [''1:30''] ''output'' None None {||} =
     (Inl (no_write_permission ''.''),
      [OpenWrite ''./temp_permission_test.tmp'', Remove ''./temp_permission_test.tmp'']) \<and>
   (\<exists>m. fst (cut_video remove_denied ''movie.mp4'' [''1:30''] ''output'' None None {||}) =
      Inl (PermissionError m))"
proof -
  let ?cv = "cut_video read_only ''movie.mp4'' [''1:30''] ''output'' None None {||}"
  let ?cv' = "cut_video remove_denied ''movie.mp4'' [''1:30''] ''output'' None None {||}"
  let ?tf = "''./temp_permission_test.tmp''"
  have pl: "plan [''1:30''] = Inr [''00:00:00'', ''00:01:30'']" by code_simp
  have td: "''.'' = (case truthy None of Some d \<Rightarrow> d | None \<Rightarrow> ''.'')" by (simp add: truthy_def)
  have tf: "?tf = path_join ''.'' ''temp_permission_test.tmp''"
    by (simp add: path_join_def)
  have mk: "\<forall>d. truthy None = Some d \<longrightarrow> mkdir_p E d {||} = (None, {||})" for E :: env
    by (simp add: truthy_def)
  have nomk: "truthy None = None \<longrightarrow> ({||} :: filesystem) = {||}" by simp
  have mkev: "[] = (case truthy None of Some d \<Rightarrow> [Mkdir d] | None \<Rightarrow> [])" by (simp add: truthy_def)
  have ow: "open_write read_only ?tf {||} = (Some (PermissionError ''[Errno 13] Permission denied''), {||})"
    by (simp add: read_only_def)
  have rm: "os_remove read_only ?tf {||} = (None, {||})" by (simp add: read_only_def)
  have res: "?cv = (fst ?cv, snd ?cv)" by simp
  from preflight_probe_unconditional [OF pl td tf mk nomk mkev ow rm res]
  have a: "\<exists>m. fst ?cv = Inl (PermissionError m)" "snd ?cv = [] @ [OpenWrite ?tf]"
    by blast+
  have a': "?cv = (Inl (no_write_permission ''.''), [OpenWrite ?tf])"
    by (simp add: cut_video_def pl preflight_def truthy_def probe_def read_only_def path_join_def
        reraise_def Let_def)
  have ow': "open_write remove_denied ?tf {||} = (None, {|?tf|})"
    by (simp add: remove_denied_def)
  have rm': "os_remove remove_denied ?tf {|?tf|} =
      (Some (PermissionError ''[Errno 13] Permission denied''), {|?tf|})"
    by (simp add: remove_denied_def)
  have res': "?cv' = (fst ?cv', snd ?cv')" by simp
  from preflight_probe_unconditional [OF pl td tf mk nomk mkev ow' rm' res']
  have b: "\<exists>m. fst ?cv' = Inl (PermissionError m)" "snd ?cv' = [] @ [OpenWrite ?tf, Remove ?tf]"
    by blast+
  have b': "?cv' = (Inl (no_write_permission ''.''), [OpenWrite ?tf, Remove ?tf])"
    by (simp add: cut_video_def pl preflight_def truthy_def probe_def remove_denied_def path_join_def
        reraise_def Let_def)
  from pl a' a(1) b' b(1) show ?thesis by (intro conjI)
qed

section \<open>The two modes of a command\<close>

lemma parse_scale_settings_shape:
  assumes "parse_scale_settings raw = Inr args"
  shows "\<exists>geometry video audio. args = [''-vf'', ''scale='' @ geometry, ''-b:v'', video, ''-b:a'', audio]"
proof (cases "map_of presets (strip (lower raw))")
  case (Some a)
  then have "args = a" using assms by (simp add: parse_scale_settings_def)
  moreover from Some have "(strip (lower raw), a) \<in> set presets" by (rule map_of_SomeD)
  ultimately show ?thesis by (auto simp: presets_def)
next
  case None
  then show ?thesis using assms
    by (auto simp: parse_scale_settings_def Let_def split: if_splits option.splits)
qed

lemma ffmpeg_options_last:
  "filter is_scale_filter (ffmpeg_options [out]) = [] \<and> (''-c'', Some ''copy'') \<notin> set (ffmpeg_options [out])"
  by (simp add: is_scale_filter_def)

lemma copy_mode:
  "copy_codecs (build_cmd iv st en [] out) \<and> scale_filters (build_cmd iv st en [] out) = 0"
  by (cases en) (simp_all add: build_cmd_def copy_codecs_def scale_filters_def is_option_def is_scale_filter_def)

lemma scale_mode:
  assumes "args = [''-vf'', ''scale='' @ geometry, ''-b:v'', video, ''-b:a'', audio]"
  shows "scale_filters (build_cmd iv st en args out) = 1 \<and> \<not> copy_codecs (build_cmd iv st en args out)"
  unfolding assms
  by (cases en) (simp_all add: build_cmd_def copy_codecs_def scale_filters_def is_option_def is_scale_filter_def)

text \<open>
  C8. For every input path, start time, end time and output path: the command built
  when no scale selector is given has the copy-codecs flag and no scale filter argument;
  the command built from a resolved scale selector has exactly one scale filter argument
  and no copy-codecs flag. Which of the two is built depends on nothing but the presence
  of the selector.
\<close>

theorem build_cmd_modes:
  assumes "scale_args_of scale = Inr scale_args"
  shows "(truthy scale = None \<longrightarrow>
            copy_codecs (build_cmd input_video start_time end_time scale_args output_filename) \<and>
            scale_filters (build_cmd input_video start_time end_time scale_args output_filename) = 0) \<and>
         (truthy scale \<noteq> None \<longrightarrow>
            scale_filters (build_cmd input_video start_time end_time scale_args output_filename) = 1 \<and>
            \<not> copy_codecs (build_cmd input_video start_time end_time scale_args output_filename))"
proof (cases "truthy scale")
  case None
  with assms have "scale_args = []" by (simp add: scale_args_of_def)
  with None show ?thesis using copy_mode by simp
next
  case (Some s)
  with assms have "parse_scale_settings s = Inr scale_args" by (simp add: scale_args_of_def)
  then obtain geometry video audio where
    "scale_args = [''-vf'', ''scale='' @ geometry, ''-b:v'', video, ''-b:a'', audio]"
    using parse_scale_settings_shape by blast
  with Some show ?thesis using scale_mode by simp
qed

text \<open>
  A copy command, and a scaling command whose input path is \<^verbatim>\<open>-c\<close> and whose bitrate
  field is \<^verbatim>\<open>-vf\<close>: as values of \<^verbatim>\<open>-i\<close> and \<^verbatim>\<open>-b:v\<close> they are neither a flag nor a filter.
\<close>

theorem build_cmd_modes_witness:
  "scale_args_of None = Inr [] \<and>
   copy_codecs (build_cmd ''movie.mp4'' ''00:00:00'' (Some ''00:01:30'') [] ''output_segment_1.mp4'') \<and>
   scale_filters (build_cmd ''movie.mp4'' ''00:00:00'' (Some ''00:01:30'') [] ''output_segment_1.mp4'') = 0 \<and>
   scale_args_of (Some ''1280:720:-vf'') =
     Inr [''-vf'', ''scale=1280:720'', ''-b:v'', ''-vf'', ''-b:a'', ''128k''] \<and>
   scale_filters (build_cmd ''-c'' ''00:01:30'' None
     [''-vf'', ''scale=1280:720'', ''-b:v'', ''-vf'', ''-b:a'', ''128k''] ''output_segment_2.mp4'') = 1 \<and>
   \<not> copy_codecs (build_cmd ''-c'' ''00:01:30'' None
     [''-vf'', ''scale=1280:720'', ''-b:v'', ''-vf'', ''-b:a'', ''128k''] ''output_segment_2.mp4'')"
proof -
  have a: "scale_args_of None = Inr []" by (simp add: scale_args_of_def truthy_def)
  have b: "scale_args_of (Some ''1280:720:-vf'') =
     Inr [''-vf'', ''scale=1280:720'', ''-b:v'', ''-vf'', ''-b:a'', ''128k'']" by code_simp
  have ta: "truthy None = None" by (simp add: truthy_def)
  have tb: "truthy (Some ''1280:720:-vf'') \<noteq> None" by (simp add: truthy_def)
  from build_cmd_modes [OF a, of "''movie.mp4''" "''00:00:00''" "Some ''00:01:30''" "''output_segment_1.mp4''"]
    build_cmd_modes [OF b, of "''-c''" "''00:01:30''" None "''output_segment_2.mp4''"] ta tb a b
  show ?thesis by blast
qed

section \<open>Custom scale selectors and invalid timestamps\<close>






text \<open>
  C4. The claim: normalization fails when the number of fields is not 1, 2 or 3, when a
  field is not an integer, and when a field is negative. The code fails on \<^verbatim>\<open>"abc"\<close> and
  on \<^verbatim>\<open>"1:2:3:4"\<close>; it has no check of the sign, and returns \<^verbatim>\<open>"00:00:-5"\<close> for \<^verbatim>\<open>"-5"\<close>.
  That string sorts below \<^verbatim>\<open>00:00:00\<close>: for \<^verbatim>\<open>["-5", "0"]\<close> the start \<^verbatim>\<open>00:00:00\<close> is
  added although it is present.
\<close>

theorem negative_timestamp_accepted:
  "parse_timestamp ''-5'' = Inr ''00:00:-5'' \<and>
   parse_timestamp ''abc'' = Inl (invalid_timestamp ''abc'') \<and>
   parse_timestamp ''1:2:3:4'' = Inl (invalid_timestamp ''1:2:3:4'') \<and>
   plan [''-5'', ''0''] = Inr [''00:00:00'', ''00:00:-5'', ''00:00:00'']"
  by code_simp

section \<open>The shape of a normalized timestamp\<close>

lemma is_digit_0: "is_digit CHR ''0''"
  by (simp add: is_digit_def)

lemma str_nat_two_digits:
  assumes "n < 100"
  shows "\<exists>a b. zfill 2 (str_nat n) = [a, b] \<and> is_digit a \<and> is_digit b"
proof (cases "n < 10")
  case True
  then have "str_nat n = [digit_char n]" by (subst str_nat.simps) simp
  with True show ?thesis by (simp add: zfill_def is_digit_0 is_digit_digit_char)
next
  case False
  with assms have d: "n div 10 < 10" by simp
  then have "str_nat (n div 10) = [digit_char (n div 10)]" by (subst str_nat.simps) simp
  with False have "str_nat n = [digit_char (n div 10), digit_char (n mod 10)]"
    by (subst str_nat.simps) simp
  with d show ?thesis by (simp add: zfill_def is_digit_digit_char)
qed

lemma fmt_02d_two_digits:
  assumes "0 \<le> v" "v \<le> 99"
  shows "\<exists>a b. fmt_02d v = [a, b] \<and> is_digit a \<and> is_digit b"
proof -
  from assms have "nat v < 100" by simp
  then have "\<exists>a b. zfill 2 (str_nat (nat v)) = [a, b] \<and> is_digit a \<and> is_digit b"
    by (rule str_nat_two_digits)
  with assms show ?thesis by (simp add: fmt_02d_def)
qed

lemma matches_fields:
  assumes "is_digit a" "is_digit b" "is_digit c" "is_digit d" "is_digit e" "is_digit f"
  shows "matches_hhmmss ([a, b] @ '':'' @ [c, d] @ '':'' @ [e, f])"
  using assms by (simp add: matches_hhmmss_def)

text \<open>
  C3, as claimed: every timestamp of one, two or three integer fields normalizes to a
  string matching \<^verbatim>\<open>\d{2}:\d{2}:\d{2}\<close>. No upper bound is put on a field, and an hours
  field of 100 has three digits.
\<close>

theorem three_digit_hours_counterexample:
  "parse_timestamp ''100:00:00'' = Inr ''100:00:00'' \<and> \<not> matches_hhmmss ''100:00:00''"
  by code_simp

text \<open>
  C3, amended: a timestamp of one, two or three integer fields, with seconds and minutes
  between 0 and 59 and hours between 0 and 99, normalizes to a string matching
  \<^verbatim>\<open>\d{2}:\d{2}:\d{2}\<close>.
\<close>

theorem parse_timestamp_two_digit_fields:
  assumes ps: "split CHR '':'' (strip raw) = parts"
  shows
    "(\<forall>p0 seconds. parts = [p0] \<and> py_int p0 = Some seconds \<and> 0 \<le> seconds \<and> seconds \<le> 59 \<longrightarrow>
        (\<exists>t. parse_timestamp raw = Inr t \<and> matches_hhmmss t)) \<and>
     (\<forall>p0 p1 minutes seconds.
        parts = [p0, p1] \<and> py_int p0 = Some minutes \<and> py_int p1 = Some seconds \<and>
        0 \<le> minutes \<and> minutes \<le> 59 \<and> 0 \<le> seconds \<and> seconds \<le> 59 \<longrightarrow>
        (\<exists>t. parse_timestamp raw = Inr t \<and> matches_hhmmss t)) \<and>
     (\<forall>p0 p1 p2 hours minutes seconds.
        parts = [p0, p1, p2] \<and> py_int p0 = Some hours \<and> py_int p1 = Some minutes \<and>
        py_int p2 = Some seconds \<and> 0 \<le> hours \<and> hours \<le> 99 \<and>
        0 \<le> minutes \<and> minutes \<le> 59 \<and> 0 \<le> seconds \<and> seconds \<le> 59 \<longrightarrow>
        (\<exists>t. parse_timestamp raw = Inr t \<and> matches_hhmmss t))"
proof (intro conjI allI impI)
  fix p0 seconds
  assume h: "parts = [p0] \<and> py_int p0 = Some seconds \<and> 0 \<le> seconds \<and> seconds \<le> 59"
  then obtain e f where s: "fmt_02d seconds = [e, f]" "is_digit e" "is_digit f"
    using fmt_02d_two_digits [of seconds] by auto
  have "parse_timestamp raw = Inr (''00:00:'' @ fmt_02d seconds)"
    using h ps by (simp add: parse_timestamp_def)
  moreover have "matches_hhmmss (''00:00:'' @ fmt_02d seconds)"
    using matches_fields [OF is_digit_0 is_digit_0 is_digit_0 is_digit_0 s(2) s(3)] s(1) by simp
  ultimately show "\<exists>t. parse_timestamp raw = Inr t \<and> matches_hhmmss t" by blast
next
  fix p0 p1 minutes seconds
  assume h: "parts = [p0, p1] \<and> py_int p0 = Some minutes \<and> py_int p1 = Some seconds \<and>
        0 \<le> minutes \<and> minutes \<le> 59 \<and> 0 \<le> seconds \<and> seconds \<le> 59"
  then obtain c d where m: "fmt_02d minutes = [c, d]" "is_digit c" "is_digit d"
    using fmt_02d_two_digits [of minutes] by auto
  from h obtain e f where s: "fmt_02d seconds = [e, f]" "is_digit e" "is_digit f"
    using fmt_02d_two_digits [of seconds] by auto
  have "parse_timestamp raw = Inr (''00:'' @ fmt_02d minutes @ '':'' @ fmt_02d seconds)"
    using h ps by (simp add: parse_timestamp_def)
  moreover have "matches_hhmmss (''00:'' @ fmt_02d minutes @ '':'' @ fmt_02d seconds)"
    using matches_fields [OF is_digit_0 is_digit_0 m(2) m(3) s(2) s(3)] m(1) s(1) by simp
  ultimately show "\<exists>t. parse_timestamp raw = Inr t \<and> matches_hhmmss t" by blast
next
  fix p0 p1 p2 hours minutes seconds
  assume h: "parts = [p0, p1, p2] \<and> py_int p0 = Some hours \<and> py_int p1 = Some minutes \<and>
        py_int p2 = Some seconds \<and> 0 \<le> hours \<and> hours \<le> 99 \<and>
        0 \<le> minutes \<and> minutes \<le> 59 \<and> 0 \<le> seconds \<and> seconds \<le> 59"
  then obtain a b where hh: "fmt_02d hours = [a, b]" "is_digit a" "is_digit b"
    using fmt_02d_two_digits [of hours] by auto
  from h obtain c d where m: "fmt_02d minutes = [c, d]" "is_digit c" "is_digit d"
    using fmt_02d_two_digits [of minutes] by auto
  from h obtain e f where s: "fmt_02d seconds = [e, f]" "is_digit e" "is_digit f"
    using fmt_02d_two_digits [of seconds] by auto
  have "parse_timestamp raw = Inr (fmt_02d hours @ '':'' @ fmt_02d minutes @ '':'' @ fmt_02d seconds)"
    using h ps by (simp add: parse_timestamp_def)
  moreover have "matches_hhmmss (fmt_02d hours @ '':'' @ fmt_02d minutes @ '':'' @ fmt_02d seconds)"
    using matches_fields [OF hh(2) hh(3) m(2) m(3) s(2) s(3)] hh(1) m(1) s(1) by simp
  ultimately show "\<exists>t. parse_timestamp raw = Inr t \<and> matches_hhmmss t" by blast
qed

text \<open>One, two and three fields, up to the largest values allowed.\<close>

theorem parse_timestamp_two_digit_fields_witness:
  "(\<exists>t. parse_timestamp ''45'' = Inr t \<and> matches_hhmmss t) \<and>
   (\<exists>t. parse_timestamp ''1:30'' = Inr t \<and> matches_hhmmss t) \<and>
   (\<exists>t. parse_timestamp ''99:59:59'' = Inr t \<and> matches_hhmmss t)"
proof -
  have p1: "split CHR '':'' (strip ''45'') = [''45'']" by code_simp
  have v1: "py_int ''45'' = Some 45" by code_simp
  have a: "\<exists>t. parse_timestamp ''45'' = Inr t \<and> matches_hhmmss t"
    using parse_timestamp_two_digit_fields [OF p1] v1 by simp
  have p2: "split CHR '':'' (strip ''1:30'') = [''1'', ''30'']" by code_simp
  have v2: "py_int ''1'' = Some 1" "py_int ''30'' = Some 30" by code_simp+
  have b: "\<exists>t. parse_timestamp ''1:30'' = Inr t \<and> matches_hhmmss t"
    using parse_timestamp_two_digit_fields [OF p2] v2 by simp
  have p3: "split CHR '':'' (strip ''99:59:59'') = [''99'', ''59'', ''59'']" by code_simp
  have v3: "py_int ''99'' = Some 99" "py_int ''59'' = Some 59" by code_simp+
  have c: "\<exists>t. parse_timestamp ''99:59:59'' = Inr t \<and> matches_hhmmss t"
    using parse_timestamp_two_digit_fields [OF p3] v3 by simp
  show ?thesis using a b c by blast
qed

section \<open>Planning the segments\<close>

lemma starts_segments: "map (fst \<circ> snd) (segments bs) = bs"
  by (simp add: segments_def comp_def map_nth)

lemma hd_segments: "bs \<noteq> [] \<Longrightarrow> fst (snd (hd (segments bs))) = hd bs"
  by (cases bs) (simp_all add: segments_def upt_conv_Cons del: upt_Suc)

lemma last_segments: "bs \<noteq> [] \<Longrightarrow> snd (snd (last (segments bs))) = None"
  by (simp add: segments_def last_map)

text \<open>
  C2, as claimed: duplicates collapse and the segments are strictly ascending. The
  timestamps are collected in a list and none is dropped: \<^verbatim>\<open>["10", "10"]\<close> plans the
  boundary \<^verbatim>\<open>00:00:10\<close> twice, and a segment from \<^verbatim>\<open>00:00:10\<close> to \<^verbatim>\<open>00:00:10\<close>.
\<close>

theorem duplicate_timestamps_kept:
  "plan [''10'', ''10''] = Inr [''00:00:00'', ''00:00:10'', ''00:00:10''] \<and>
   \<not> sorted_wrt (<) (map (fst \<circ> snd) (segments [''00:00:00'', ''00:00:10'', ''00:00:10'']))"
proof -
  have "plan [''10'', ''10''] = Inr [''00:00:00'', ''00:00:10'', ''00:00:10'']" by code_simp
  moreover have "\<not> sorted_wrt (<) [''00:00:00'', ''00:00:10'', ''00:00:10'']" by simp
  ultimately show ?thesis by (simp only: starts_segments) simp
qed

subsection \<open>Canonical strings are ordered as the times they stand for\<close>

lemma digit_char_0: "digit_char 0 = CHR ''0''"
  by code_simp

lemma digit_char_less: "d < 10 \<Longrightarrow> d' < 10 \<Longrightarrow> (digit_char d < digit_char d') = (d < d')"
  by (simp add: less_char_def of_char_digit_char)

lemma digit_char_eq: "d < 10 \<Longrightarrow> d' < 10 \<Longrightarrow> (digit_char d = digit_char d') = (d = d')"
  by (metis add_left_cancel of_char_digit_char)

lemma digit_char_plain:
  assumes "d < 10"
  shows "digit_char d \<noteq> CHR '':''" "digit_char d \<noteq> CHR ''-''" "digit_char d \<noteq> CHR ''+''"
    "\<not> is_c_space (digit_char d)"
proof -
  have k: "(of_char (digit_char d) :: nat) = 48 + d" using assms by (rule of_char_digit_char)
  have "(of_char (digit_char d) :: nat) \<noteq> of_char CHR '':''" using assms by (simp add: k)
  then show "digit_char d \<noteq> CHR '':''" by auto
  have "(of_char (digit_char d) :: nat) \<noteq> of_char CHR ''-''" using assms by (simp add: k)
  then show "digit_char d \<noteq> CHR ''-''" by auto
  have "(of_char (digit_char d) :: nat) \<noteq> of_char CHR ''+''" using assms by (simp add: k)
  then show "digit_char d \<noteq> CHR ''+''" by auto
  show "\<not> is_c_space (digit_char d)" using assms by (simp add: is_c_space_def k)
qed

lemma fmt_02d_two: "v < 100 \<Longrightarrow> fmt_02d (int v) = two_digits v"
proof (cases "v < 10")
  case True
  then have "str_nat v = [digit_char v]" by (subst str_nat.simps) simp
  with True show ?thesis by (simp add: fmt_02d_def zfill_def two_digits_def digit_char_0)
next
  case False
  assume "v < 100"
  then have "v div 10 < 10" by simp
  then have "str_nat (v div 10) = [digit_char (v div 10)]" by (subst str_nat.simps) simp
  with False have "str_nat v = [digit_char (v div 10), digit_char (v mod 10)]"
    by (subst str_nat.simps) simp
  then show ?thesis by (simp add: fmt_02d_def zfill_def two_digits_def)
qed

lemma tens_units_less:
  fixes a b a' b' :: nat
  assumes "b < 10" "b' < 10"
  shows "(a < a' \<or> a = a' \<and> b < b') = (10 * a + b < 10 * a' + b')"
proof
  assume "a < a' \<or> a = a' \<and> b < b'"
  then show "10 * a + b < 10 * a' + b'"
  proof
    assume "a < a'"
    then have "a + 1 \<le> a'" by simp
    then have "10 * a + 10 \<le> 10 * a'" by simp
    with assms show ?thesis by linarith
  next
    assume "a = a' \<and> b < b'"
    then show ?thesis by simp
  qed
next
  assume l: "10 * a + b < 10 * a' + b'"
  show "a < a' \<or> a = a' \<and> b < b'"
  proof (cases "a < a'")
    case True
    then show ?thesis by simp
  next
    case False
    then have "a' \<le> a" by simp
    then have "10 * a' \<le> 10 * a" by simp
    with l assms have "a' = a \<and> b < b'" by linarith
    then show ?thesis by simp
  qed
qed

lemma tens_units_eq:
  fixes a b a' b' :: nat
  assumes "b < 10" "b' < 10"
  shows "(a = a' \<and> b = b') = (10 * a + b = 10 * a' + b')"
proof
  assume "a = a' \<and> b = b'"
  then show "10 * a + b = 10 * a' + b'" by simp
next
  assume e: "10 * a + b = 10 * a' + b'"
  have "\<not> 10 * a + b < 10 * a' + b'" "\<not> 10 * a' + b' < 10 * a + b" using e by simp_all
  then have "\<not> (a < a' \<or> a = a' \<and> b < b')" "\<not> (a' < a \<or> a' = a \<and> b' < b)"
    using tens_units_less [OF assms] tens_units_less [OF assms(2) assms(1)] by blast+
  then show "a = a' \<and> b = b'" by auto
qed

lemma hms_less:
  fixes h m s h' m' s' :: nat
  assumes "m < 60" "s < 60" "m' < 60" "s' < 60"
    and "h < h' \<or> h = h' \<and> (m < m' \<or> m = m' \<and> s < s')"
  shows "int h * 3600 + int m * 60 + int s < int h' * 3600 + int m' * 60 + int s'"
proof -
  from assms(5) consider "h + 1 \<le> h'" | "h = h'" "m + 1 \<le> m'" | "h = h'" "m = m'" "s < s'"
    by auto
  then show ?thesis
  proof cases
    case 1
    then have "int h * 3600 + 3600 \<le> int h' * 3600" by simp
    with assms(1-4) show ?thesis by linarith
  next
    case 2
    then have "int m * 60 + 60 \<le> int m' * 60" by simp
    with 2(1) assms(1-4) show ?thesis by linarith
  next
    case 3
    then show ?thesis by simp
  qed
qed

lemma two_digits_less:
  assumes "v < 100" "v' < 100"
  shows "(two_digits v < two_digits v') = (v < v')"
proof -
  have d: "v div 10 < 10" "v' div 10 < 10" "v mod 10 < 10" "v' mod 10 < 10" using assms by simp_all
  have "(two_digits v < two_digits v') =
      (v div 10 < v' div 10 \<or> v div 10 = v' div 10 \<and> v mod 10 < v' mod 10)"
    by (simp add: two_digits_def digit_char_less d digit_char_eq)
  also have "\<dots> = (10 * (v div 10) + v mod 10 < 10 * (v' div 10) + v' mod 10)"
    using d(3) d(4) by (rule tens_units_less)
  also have "\<dots> = (v < v')" by simp
  finally show ?thesis .
qed

lemma two_digits_eq:
  assumes "v < 100" "v' < 100"
  shows "(two_digits v = two_digits v') = (v = v')"
proof -
  have d: "v div 10 < 10" "v' div 10 < 10" "v mod 10 < 10" "v' mod 10 < 10" using assms by simp_all
  have "(two_digits v = two_digits v') = (v div 10 = v' div 10 \<and> v mod 10 = v' mod 10)"
    by (simp add: two_digits_def d digit_char_eq)
  also have "\<dots> = (10 * (v div 10) + v mod 10 = 10 * (v' div 10) + v' mod 10)"
    using d(3) d(4) by (rule tens_units_eq)
  also have "\<dots> = (v = v')" by simp
  finally show ?thesis .
qed

lemma append_less_same_length:
  fixes u u' x y :: string
  shows "length u = length u' \<Longrightarrow> (u @ x < u' @ y) = (u < u' \<or> u = u' \<and> x < y)"
  by (induction u u' rule: list_induct2) auto

lemma length_two_digits: "length (two_digits v) = 2"
  by (simp add: two_digits_def)

lemma hhmmss_less:
  assumes "h < 100" "m < 100" "s < 100" "h' < 100" "m' < 100" "s' < 100"
  shows "(hhmmss h m s < hhmmss h' m' s') =
     (h < h' \<or> h = h' \<and> (m < m' \<or> m = m' \<and> s < s'))"
proof -
  have 1: "(two_digits h @ x < two_digits h' @ y) = (h < h' \<or> h = h' \<and> x < y)" for x y
    by (simp add: append_less_same_length length_two_digits two_digits_less two_digits_eq assms)
  have 2: "(two_digits m @ x < two_digits m' @ y) = (m < m' \<or> m = m' \<and> x < y)" for x y
    by (simp add: append_less_same_length length_two_digits two_digits_less two_digits_eq assms)
  show ?thesis
    unfolding hhmmss_def 1
    by (simp add: 2 two_digits_less assms)
qed

lemma py_int_two_digits: "v < 100 \<Longrightarrow> py_int (two_digits v) = Some (int v)"
proof -
  assume v: "v < 100"
  then have d: "v div 10 < 10" "v mod 10 < 10" by simp_all
  have s: "int_strip (two_digits v) = two_digits v"
    by (simp add: int_strip_def two_digits_def digit_char_plain d)
  have "parse_unsigned (two_digits v) = Some (10 * (v div 10) + v mod 10)"
    by (simp add: parse_unsigned_def two_digits_def is_digit_digit_char d digit_val_digit_char
        max_str_digits_def)
  then have "parse_unsigned (two_digits v) = Some v" by simp
  then show ?thesis
    unfolding py_int_def s
    by (simp add: two_digits_def digit_char_plain d)
qed

lemma split_hhmmss:
  assumes "h < 100" "m < 100" "s < 100"
  shows "split CHR '':'' (hhmmss h m s) = [two_digits h, two_digits m, two_digits s]"
proof -
  have d: "h div 10 < 10" "h mod 10 < 10" "m div 10 < 10" "m mod 10 < 10" "s div 10 < 10" "s mod 10 < 10"
    using assms by simp_all
  show ?thesis
    by (simp add: hhmmss_def two_digits_def digit_char_plain d)
qed

lemma hhmmss_seconds:
  assumes "h < 100" "m < 100" "s < 100"
  shows "timestamp_to_seconds (hhmmss h m s) = Some (int h * 3600 + int m * 60 + int s)"
  by (simp add: timestamp_to_seconds_def split_hhmmss py_int_two_digits assms)

lemma hhmmss_0: "hhmmss 0 0 0 = ''00:00:00''"
  by code_simp

lemma two_digits_0: "two_digits 0 = ''00''"
  by code_simp

lemma canonicalI: "h < 100 \<Longrightarrow> m < 60 \<Longrightarrow> s < 60 \<Longrightarrow> canonical (hhmmss h m s)"
  unfolding canonical_def by blast

lemma canonical_zero: "canonical ''00:00:00''"
  using canonicalI [of 0 0 0] by (simp add: hhmmss_0)

lemma canonical_ge_zero:
  assumes "canonical t"
  shows "''00:00:00'' \<le> t"
proof -
  from assms obtain h m s where b: "h < 100" "m < 60" "s < 60" and t: "t = hhmmss h m s"
    by (auto simp: canonical_def)
  have "\<not> hhmmss h m s < hhmmss 0 0 0"
    using b by (simp add: hhmmss_less)
  then show ?thesis by (simp add: t hhmmss_0)
qed

lemma canonical_order:
  assumes "canonical x" "canonical y" "x < y"
  shows "\<exists>a b. timestamp_to_seconds x = Some a \<and> timestamp_to_seconds y = Some b \<and> a < b"
proof -
  from assms(1) obtain h m s where b: "h < 100" "m < 60" "s < 60" and x: "x = hhmmss h m s"
    by (auto simp: canonical_def)
  from assms(2) obtain h' m' s' where b': "h' < 100" "m' < 60" "s' < 60" and y: "y = hhmmss h' m' s'"
    by (auto simp: canonical_def)
  from assms(3) have "h < h' \<or> h = h' \<and> (m < m' \<or> m = m' \<and> s < s')"
    using b b' by (simp add: x y hhmmss_less)
  then have "int h * 3600 + int m * 60 + int s < int h' * 3600 + int m' * 60 + int s'"
    using b(2) b(3) b'(2) b'(3) by (intro hms_less)
  moreover have "timestamp_to_seconds x = Some (int h * 3600 + int m * 60 + int s)"
    using b by (simp add: x hhmmss_seconds)
  moreover have "timestamp_to_seconds y = Some (int h' * 3600 + int m' * 60 + int s')"
    using b' by (simp add: y hhmmss_seconds)
  ultimately show ?thesis by blast
qed

lemma field_betweenD:
  assumes "field_between 0 hi p" "hi < 100"
  shows "\<exists>v. py_int p = Some (int v) \<and> int v \<le> hi \<and> v < 100 \<and> fmt_02d (int v) = two_digits v"
proof -
  from assms(1) obtain i where i: "py_int p = Some i" "0 \<le> i" "i \<le> hi"
    by (auto simp: field_between_def split: option.splits)
  then have "nat i < 100" using assms(2) by simp
  then have "fmt_02d (int (nat i)) = two_digits (nat i)" by (rule fmt_02d_two)
  with i assms(2) show ?thesis by (intro exI [of _ "nat i"]) simp
qed

lemma in_range_canonical:
  assumes "in_range_fields raw"
  shows "\<exists>t. parse_timestamp raw = Inr t \<and> canonical t"
proof -
  let ?parts = "split CHR '':'' (strip raw)"
  from assms consider (one) p0 where "?parts = [p0]" "field_between 0 59 p0"
    | (two) p0 p1 where "?parts = [p0, p1]" "field_between 0 59 p0" "field_between 0 59 p1"
    | (three) p0 p1 p2 where "?parts = [p0, p1, p2]" "field_between 0 99 p0"
        "field_between 0 59 p1" "field_between 0 59 p2"
    by (auto simp: in_range_fields_def split: list.splits)
  then show ?thesis
  proof cases
    case one
    from field_betweenD [OF one(2)] obtain s where
      s: "py_int p0 = Some (int s)" "int s \<le> 59" "fmt_02d (int s) = two_digits s" by auto
    have "parse_timestamp raw = Inr (hhmmss 0 0 s)"
      using one(1) s by (simp add: parse_timestamp_def hhmmss_def two_digits_0)
    moreover have "canonical (hhmmss 0 0 s)" using s(2) by (intro canonicalI) simp_all
    ultimately show ?thesis by blast
  next
    case two
    from field_betweenD [OF two(2)] obtain m where
      m: "py_int p0 = Some (int m)" "int m \<le> 59" "fmt_02d (int m) = two_digits m" by auto
    from field_betweenD [OF two(3)] obtain s where
      s: "py_int p1 = Some (int s)" "int s \<le> 59" "fmt_02d (int s) = two_digits s" by auto
    have "parse_timestamp raw = Inr (hhmmss 0 m s)"
      using two(1) m s by (simp add: parse_timestamp_def hhmmss_def two_digits_0)
    moreover have "canonical (hhmmss 0 m s)" using m(2) s(2) by (intro canonicalI) simp_all
    ultimately show ?thesis by blast
  next
    case three
    from field_betweenD [OF three(2)] obtain h where
      h: "py_int p0 = Some (int h)" "h < 100" "fmt_02d (int h) = two_digits h" by auto
    from field_betweenD [OF three(3)] obtain m where
      m: "py_int p1 = Some (int m)" "int m \<le> 59" "fmt_02d (int m) = two_digits m" by auto
    from field_betweenD [OF three(4)] obtain s where
      s: "py_int p2 = Some (int s)" "int s \<le> 59" "fmt_02d (int s) = two_digits s" by auto
    have "parse_timestamp raw = Inr (hhmmss h m s)"
      using three(1) h m s by (simp add: parse_timestamp_def hhmmss_def)
    moreover have "canonical (hhmmss h m s)" using h(2) m(2) s(2) by (intro canonicalI) simp_all
    ultimately show ?thesis by blast
  qed
qed

lemma parse_all_canonical:
  "list_all in_range_fields timestamps \<Longrightarrow>
   \<exists>parsed. parse_all timestamps = Inr parsed \<and> length parsed = length timestamps \<and>
     (\<forall>t \<in> set parsed. canonical t)"
proof (induction timestamps)
  case Nil
  then show ?case by simp
next
  case (Cons raw rest)
  then obtain t where t: "parse_timestamp raw = Inr t" "canonical t"
    using in_range_canonical by auto
  from Cons obtain parsed where p: "parse_all rest = Inr parsed" "length parsed = length rest"
    "\<forall>t \<in> set parsed. canonical t" by auto
  show ?case using t p by (intro exI [of _ "t # parsed"]) simp
qed

text \<open>
  C2, amended: for a non-empty list of raw timestamps within the usual ranges (seconds
  and minutes from 0 to 59, hours from 0 to 99), the planning step sorts the canonical
  strings ascending, puts \<^verbatim>\<open>00:00:00\<close> in front when the first of them is another string,
  and yields one segment per boundary; the first segment starts at \<^verbatim>\<open>00:00:00\<close> and the
  last has no end time. When the canonical strings are pairwise different, the segments
  are strictly ascending, as strings and as the numbers of seconds they stand for.
\<close>

theorem plan_segments:
  assumes ne: "timestamps \<noteq> []" and rng: "list_all in_range_fields timestamps"
  shows "\<exists>parsed bs. parse_all timestamps = Inr parsed \<and> plan timestamps = Inr bs \<and>
     bs = (if hd (sort parsed) = ''00:00:00'' then sort parsed else ''00:00:00'' # sort parsed) \<and>
     length (segments bs) = length bs \<and>
     map (fst \<circ> snd) (segments bs) = bs \<and>
     fst (snd (hd (segments bs))) = ''00:00:00'' \<and>
     snd (snd (last (segments bs))) = None \<and>
     (distinct parsed \<longrightarrow>
        sorted_wrt (<) (map (fst \<circ> snd) (segments bs)) \<and>
        (\<exists>secs. map timestamp_to_seconds (map (fst \<circ> snd) (segments bs)) = map Some secs \<and>
           sorted_wrt (<) secs))"
proof -
  from parse_all_canonical [OF rng] obtain parsed where
    pa: "parse_all timestamps = Inr parsed" and len: "length parsed = length timestamps"
    and can: "\<forall>t \<in> set parsed. canonical t" by blast
  from ne len have "sort parsed \<noteq> []" by (metis length_0_conv length_sort)
  then obtain t ts where st: "sort parsed = t # ts" by (cases "sort parsed") auto
  define bs where "bs = (if hd (sort parsed) = ''00:00:00'' then sort parsed else ''00:00:00'' # sort parsed)"
  have pl: "plan timestamps = Inr bs"
    using ne pa st by (simp add: plan_def bs_def)
  have nonempty: "bs \<noteq> []" and hd: "hd bs = ''00:00:00''"
    using st by (auto simp: bs_def)
  have can_bs: "\<forall>x \<in> set bs. canonical x"
    using can canonical_zero by (auto simp: bs_def)
  have strict: "sorted_wrt (<) bs" if d: "distinct parsed"
  proof -
    have above: "\<forall>x \<in> set (sort parsed). ''00:00:00'' \<le> x"
      using can canonical_ge_zero by simp
    have ss: "sorted_wrt (<) (sort parsed)"
      using d by (simp add: strict_sorted_iff)
    show ?thesis
    proof (cases "hd (sort parsed) = ''00:00:00''")
      case True
      with ss show ?thesis by (simp add: bs_def)
    next
      case False
      have "''00:00:00'' < x" if x: "x \<in> set (sort parsed)" for x
      proof (rule ccontr)
        assume "\<not> ''00:00:00'' < x"
        with above x have x0: "x = ''00:00:00''" by auto
        have "sorted (t # ts)" using sorted_sort [of parsed] by (simp add: st)
        with x st have "t \<le> x" by auto
        moreover from above st have "''00:00:00'' \<le> t" by simp
        ultimately have "t = ''00:00:00''" using x0 by simp
        with False st show False by simp
      qed
      with ss False show ?thesis by (simp add: bs_def)
    qed
  qed
  have numeric: "\<exists>secs. map timestamp_to_seconds bs = map Some secs \<and> sorted_wrt (<) secs"
    if s: "sorted_wrt (<) bs"
  proof -
    define secs where "secs = map (\<lambda>x. the (timestamp_to_seconds x)) bs"
    have some: "timestamp_to_seconds x = Some (the (timestamp_to_seconds x))" if "x \<in> set bs" for x
    proof -
      from that can_bs have "canonical x" by blast
      then obtain h m sec where "h < 100" "m < 60" "sec < 60" "x = hhmmss h m sec"
        by (auto simp: canonical_def)
      then show ?thesis by (simp add: hhmmss_seconds)
    qed
    have m: "map timestamp_to_seconds bs = map Some secs"
      unfolding secs_def using some by (simp add: comp_def)
    have "sorted_wrt (\<lambda>x y. the (timestamp_to_seconds x) < the (timestamp_to_seconds y)) bs"
    proof (rule sorted_wrt_mono_rel [OF _ s])
      fix x y assume "x \<in> set bs" "y \<in> set bs" "x < y"
      with can_bs obtain a b where "timestamp_to_seconds x = Some a" "timestamp_to_seconds y = Some b"
        "a < b" using canonical_order by blast
      then show "the (timestamp_to_seconds x) < the (timestamp_to_seconds y)" by simp
    qed
    then have "sorted_wrt (<) secs" by (simp add: secs_def sorted_wrt_map)
    with m show ?thesis by blast
  qed
  have last: "distinct parsed \<longrightarrow>
        sorted_wrt (<) (map (fst \<circ> snd) (segments bs)) \<and>
        (\<exists>secs. map timestamp_to_seconds (map (fst \<circ> snd) (segments bs)) = map Some secs \<and>
           sorted_wrt (<) secs)"
    unfolding starts_segments using strict numeric by blast
  have "parse_all timestamps = Inr parsed \<and> plan timestamps = Inr bs \<and>
     bs = (if hd (sort parsed) = ''00:00:00'' then sort parsed else ''00:00:00'' # sort parsed) \<and>
     length (segments bs) = length bs \<and>
     map (fst \<circ> snd) (segments bs) = bs \<and>
     fst (snd (hd (segments bs))) = ''00:00:00'' \<and>
     snd (snd (last (segments bs))) = None \<and>
     (distinct parsed \<longrightarrow>
        sorted_wrt (<) (map (fst \<circ> snd) (segments bs)) \<and>
        (\<exists>secs. map timestamp_to_seconds (map (fst \<circ> snd) (segments bs)) = map Some secs \<and>
           sorted_wrt (<) secs))"
    using pa pl nonempty hd last
    by (simp add: starts_segments hd_segments last_segments length_segments bs_def [symmetric])
  then show ?thesis by blast
qed

text \<open>
  The cut points \<^verbatim>\<open>1:30\<close>, \<^verbatim>\<open>0:10\<close> and \<^verbatim>\<open>3:45\<close> give four boundaries, at 0, 10, 90 and
  225 seconds.
\<close>

theorem plan_segments_witness:
  "plan [''1:30'', ''0:10'', ''3:45''] = Inr [''00:00:00'', ''00:00:10'', ''00:01:30'', ''00:03:45''] \<and>
   map (fst \<circ> snd) (segments [''00:00:00'', ''00:00:10'', ''00:01:30'', ''00:03:45'']) =
     [''00:00:00'', ''00:00:10'', ''00:01:30'', ''00:03:45''] \<and>
   snd (snd (last (segments [''00:00:00'', ''00:00:10'', ''00:01:30'', ''00:03:45'']))) = None \<and>
   sorted_wrt (<) (map (fst \<circ> snd) (segments [''00:00:00'', ''00:00:10'', ''00:01:30'', ''00:03:45''])) \<and>
   map timestamp_to_seconds [''00:00:00'', ''00:00:10'', ''00:01:30'', ''00:03:45''] =
     map Some [0, 10, 90, 225]"
proof -
  let ?ts = "[''1:30'', ''0:10'', ''3:45'']"
  let ?parsed = "[''00:01:30'', ''00:00:10'', ''00:03:45'']"
  let ?bs = "[''00:00:00'', ''00:00:10'', ''00:01:30'', ''00:03:45'']"
  have ne: "?ts \<noteq> []" by simp
  have rng: "list_all in_range_fields ?ts" by code_simp
  have pa: "parse_all ?ts = Inr ?parsed" by code_simp
  have d: "distinct ?parsed" by simp
  have so: "sort ?parsed = [''00:00:10'', ''00:01:30'', ''00:03:45'']" by code_simp
  from plan_segments [OF ne rng] obtain parsed bs where bs:
    "parse_all ?ts = Inr parsed"
    "plan ?ts = Inr bs"
    "bs = (if hd (sort parsed) = ''00:00:00'' then sort parsed else ''00:00:00'' # sort parsed)"
    "map (fst \<circ> snd) (segments bs) = bs"
    "snd (snd (last (segments bs))) = None"
    "distinct parsed \<longrightarrow> sorted_wrt (<) (map (fst \<circ> snd) (segments bs)) \<and>
        (\<exists>secs. map timestamp_to_seconds (map (fst \<circ> snd) (segments bs)) = map Some secs \<and>
           sorted_wrt (<) secs)"
    by blast
  from bs(1) pa have p: "parsed = ?parsed" by simp
  from bs(3) have e: "bs = ?bs" by (simp add: p so)
  from bs(6) d have "sorted_wrt (<) (map (fst \<circ> snd) (segments bs))" by (simp add: p)
  then have s: "sorted_wrt (<) (map (fst \<circ> snd) (segments ?bs))" by (simp only: e)
  from bs(2) have a: "plan ?ts = Inr ?bs" by (simp only: e)
  from bs(4) have b: "map (fst \<circ> snd) (segments ?bs) = ?bs" by (simp only: e)
  from bs(5) have c: "snd (snd (last (segments ?bs))) = None" by (simp only: e)
  have n: "map timestamp_to_seconds ?bs = map Some [0, 10, 90, 225]" by code_simp
  show ?thesis by (rule conjI [OF a conjI [OF b conjI [OF c conjI [OF s n]]]])
qed

end
